theory Spec2Isabelle
  imports Complex_Main "HOL-Library.Sublist" "HOL-Library.AList"
begin

section \<open>Sales reconciliation backend (backend/server.js)\<close>

text \<open>
  The development embeds the reconciliation code of \<^verbatim>\<open>backend/server.js\<close>: the cell
  normalisers (\<^verbatim>\<open>num\<close>, \<^verbatim>\<open>isSparesItem\<close>, \<^verbatim>\<open>normalizeInvoiceNo\<close>), the
  accumulator \<^verbatim>\<open>upsertAchievement\<close>, the invoice aggregation and the reconciliation
  loop of \<^verbatim>\<open>processRowsForSalesperson\<close>, the block segmenter of
  \<^verbatim>\<open>processExcelFileMulti\<close>, the return-list reader and the upload handler.

  Conventions of the embedding.
  \<^item> A JavaScript number is \<open>NaN\<close>, an infinity or a finite value. Finite values are
    exact rationals: the rounding and the overflow of IEEE doubles are not part of the
    model, and the two zeros are one value.
  \<^item> A text is a list of characters read as ASCII. \<^verbatim>\<open>toUpperCase\<close> acts on the
    letters a to z, white space is TAB, LF, VT, FF, CR and SPACE; other characters are
    left as they are.
  \<^item> A spreadsheet file is given by the cell grid that \<^verbatim>\<open>XLSX.utils.sheet_to_json\<close>
    returns for its first sheet; the database is given by the salesperson directory
    and the collection of monthly achievements, keyed by its unique index.
  \<^item> Console output is not modelled.
\<close>

subsection \<open>Numbers\<close>

datatype jsnum = Fin rat | PInf | NInf | NaN

text \<open>Addition: \<open>NaN\<close> is absorbing and the two infinities add up to \<open>NaN\<close>.\<close>

instantiation jsnum :: plus
begin

fun plus_jsnum :: "jsnum \<Rightarrow> jsnum \<Rightarrow> jsnum" where
  "plus_jsnum NaN y = NaN"
| "plus_jsnum x NaN = NaN"
| "plus_jsnum (Fin a) (Fin b) = Fin (a + b)"
| "plus_jsnum (Fin a) y = y"
| "plus_jsnum x (Fin b) = x"
| "plus_jsnum PInf PInf = PInf"
| "plus_jsnum NInf NInf = NInf"
| "plus_jsnum PInf NInf = NaN"
| "plus_jsnum NInf PInf = NaN"

instance ..

end

fun js_neg :: "jsnum \<Rightarrow> jsnum" where
  "js_neg (Fin a) = Fin (- a)"
| "js_neg PInf = NInf"
| "js_neg NInf = PInf"
| "js_neg NaN = NaN"

definition js_sub :: "jsnum \<Rightarrow> jsnum \<Rightarrow> jsnum" where
  "js_sub x y = x + js_neg y"

definition js_sign :: "jsnum \<Rightarrow> int" where
  "js_sign x = (case x of Fin a \<Rightarrow> (if a < 0 then -1 else if 0 < a then 1 else 0)
     | PInf \<Rightarrow> 1 | NInf \<Rightarrow> -1 | NaN \<Rightarrow> 0)"

definition js_mul :: "jsnum \<Rightarrow> jsnum \<Rightarrow> jsnum" where
  "js_mul x y =
     (case (x, y) of
        (NaN, _) \<Rightarrow> NaN
      | (_, NaN) \<Rightarrow> NaN
      | (Fin a, Fin b) \<Rightarrow> Fin (a * b)
      | _ \<Rightarrow> (if js_sign x = 0 \<or> js_sign y = 0 then NaN
              else if (0 < js_sign x) = (0 < js_sign y) then PInf else NInf))"

text \<open>\<^verbatim>\<open>Math.round\<close>: the nearest integer, a tie going up.\<close>

fun Math_round :: "jsnum \<Rightarrow> jsnum" where
  "Math_round (Fin a) = Fin (of_int \<lfloor>a + 1 / 2\<rfloor>)"
| "Math_round x = x"

definition isNaN :: "jsnum \<Rightarrow> bool" where
  "isNaN x = (x = NaN)"

text \<open>A number is falsy when it is zero or \<open>NaN\<close>; \<^verbatim>\<open>===\<close> never holds of \<open>NaN\<close>.\<close>

definition truthy_num :: "jsnum \<Rightarrow> bool" where
  "truthy_num x = (x \<noteq> Fin 0 \<and> x \<noteq> NaN)"

definition strict_eq :: "jsnum \<Rightarrow> jsnum \<Rightarrow> bool" where
  "strict_eq x y = (x = y \<and> x \<noteq> NaN)"

text \<open>\<^verbatim>\<open>x || 0\<close> on a number.\<close>

definition or_zero :: "jsnum \<Rightarrow> jsnum" where
  "or_zero x = (if truthy_num x then x else Fin 0)"

subsection \<open>Texts\<close>

definition is_ws :: "char \<Rightarrow> bool" where
  "is_ws c = (let n = (of_char c :: int) in (9 \<le> n \<and> n \<le> 13) \<or> n = 32)"

definition trim :: "string \<Rightarrow> string" where
  "trim s = rev (dropWhile is_ws (rev (dropWhile is_ws s)))"

definition upper_char :: "char \<Rightarrow> char" where
  "upper_char c =
     (let n = (of_char c :: int) in if 97 \<le> n \<and> n \<le> 122 then char_of (n - 32) else c)"

definition toUpperCase :: "string \<Rightarrow> string" where
  "toUpperCase s = map upper_char s"

definition startsWith :: "string \<Rightarrow> string \<Rightarrow> bool" where
  "startsWith s p = prefix p s"

fun includes_text :: "string \<Rightarrow> string \<Rightarrow> bool" where
  "includes_text [] p = (p = [])"
| "includes_text (c # s) p = (prefix p (c # s) \<or> includes_text s p)"

text \<open>\<^verbatim>\<open>s.replace(/,/g, "")\<close> and \<^verbatim>\<open>s.replace(/\*+$/, "")\<close>.\<close>

definition strip_commas :: "string \<Rightarrow> string" where
  "strip_commas s = filter (\<lambda>c. c \<noteq> CHR '','') s"

definition strip_trailing_stars :: "string \<Rightarrow> string" where
  "strip_trailing_stars s = rev (dropWhile (\<lambda>c. c = CHR ''*'') (rev s))"

subsection \<open>Number to text, text to number\<close>

definition digit_char :: "int \<Rightarrow> char" where
  "digit_char d = char_of (48 + d)"

fun int_digits :: "nat \<Rightarrow> int \<Rightarrow> string" where
  "int_digits 0 n = []"
| "int_digits (Suc fuel) n =
     (if n < 10 then [digit_char n] else int_digits fuel (n div 10) @ [digit_char (n mod 10)])"

fun frac_digits :: "nat \<Rightarrow> rat \<Rightarrow> string" where
  "frac_digits 0 r = []"
| "frac_digits (Suc fuel) r =
     (if r = 0 then []
      else (let d = \<lfloor>r * 10\<rfloor> in digit_char d # frac_digits fuel (r * 10 - of_int d)))"

text \<open>
  \<^verbatim>\<open>String(x)\<close> of a number. Integers print as their decimal digits and other finite
  values in fixed notation, which is what the runtime prints for an integer below
  \<open>10^21\<close> and for a decimal of up to fifteen significant digits that is at least
  \<open>10^-6\<close>; the exponent notation of the remaining values is not modelled. At most 22
  digits are printed before the point and 20 after it, so the text is that of the number
  only below \<open>10^22\<close> and up to 20 decimal places. The text of a number is used where
  the code compares or tests it as a text; \<^verbatim>\<open>num\<close> does not depend on it.
\<close>

definition number_text :: "jsnum \<Rightarrow> string" where
  "number_text x =
     (case x of
        NaN \<Rightarrow> ''NaN''
      | PInf \<Rightarrow> ''Infinity''
      | NInf \<Rightarrow> ''-Infinity''
      | Fin a \<Rightarrow>
          (let m = \<bar>a\<bar>; i = \<lfloor>m\<rfloor>; f = m - of_int i
           in (if a < 0 then ''-'' else '''') @ int_digits 22 i
              @ (if f = 0 then '''' else ''.'' @ frac_digits 20 f)))"

definition is_digit :: "char \<Rightarrow> bool" where
  "is_digit c = (48 \<le> (of_char c :: int) \<and> (of_char c :: int) \<le> 57)"

definition hex_val :: "char \<Rightarrow> int option" where
  "hex_val c =
     (let n = (of_char c :: int)
      in if 48 \<le> n \<and> n \<le> 57 then Some (n - 48)
         else if 65 \<le> n \<and> n \<le> 70 then Some (n - 55)
         else if 97 \<le> n \<and> n \<le> 102 then Some (n - 87)
         else None)"

definition is_base_digit :: "int \<Rightarrow> char \<Rightarrow> bool" where
  "is_base_digit b c = (case hex_val c of None \<Rightarrow> False | Some d \<Rightarrow> d < b)"

definition digits_value :: "int \<Rightarrow> string \<Rightarrow> int" where
  "digits_value b ds = foldl (\<lambda>a c. a * b + (case hex_val c of None \<Rightarrow> 0 | Some d \<Rightarrow> d)) 0 ds"

definition pow10 :: "int \<Rightarrow> rat" where
  "pow10 e = (if 0 \<le> e then 10 ^ nat e else 1 / 10 ^ nat (- e))"

text \<open>The exponent part after the letter e: an optional sign and at least one digit.\<close>

definition exponent_part :: "string \<Rightarrow> int option" where
  "exponent_part s =
     (let (neg, ds) = (case s of
                         c # t \<Rightarrow> if c = CHR ''-'' then (True, t)
                                   else if c = CHR ''+'' then (False, t) else (False, s)
                       | [] \<Rightarrow> (False, s))
      in if ds \<noteq> [] \<and> list_all is_digit ds
         then Some (if neg then - digits_value 10 ds else digits_value 10 ds)
         else None)"

text \<open>
  \<open>StrUnsignedDecimalLiteral\<close> of the language definition: \<open>Infinity\<close>, or digits
  with an optional fraction and an optional exponent, with a digit on at least one side
  of the point.
\<close>

definition unsigned_decimal :: "string \<Rightarrow> jsnum" where
  "unsigned_decimal s =
     (if s = ''Infinity'' then PInf
      else
        (let ip = takeWhile is_digit s;
             r1 = dropWhile is_digit s;
             (fp, r2) = (case r1 of
                           c # t \<Rightarrow> if c = CHR ''.''
                                     then (takeWhile is_digit t, dropWhile is_digit t)
                                     else ([], r1)
                         | [] \<Rightarrow> ([], r1));
             mant = of_int (digits_value 10 ip)
                    + of_int (digits_value 10 fp) / 10 ^ length fp
         in if ip = [] \<and> fp = [] then NaN
            else (case r2 of
                    [] \<Rightarrow> Fin mant
                  | c # t \<Rightarrow>
                      if c = CHR ''e'' \<or> c = CHR ''E''
                      then (case exponent_part t of
                              None \<Rightarrow> NaN
                            | Some e \<Rightarrow> Fin (mant * pow10 e))
                      else NaN)))"

definition non_decimal :: "string \<Rightarrow> jsnum option" where
  "non_decimal s =
     (case s of
        z # x # ds \<Rightarrow>
          (if z \<noteq> CHR ''0'' then None
           else (let b = (if x = CHR ''x'' \<or> x = CHR ''X'' then 16
                          else if x = CHR ''o'' \<or> x = CHR ''O'' then 8
                          else if x = CHR ''b'' \<or> x = CHR ''B'' then 2 else (0::int))
                 in if b = 0 then None
                    else if ds \<noteq> [] \<and> list_all (is_base_digit b) ds
                    then Some (Fin (of_int (digits_value b ds)))
                    else Some NaN))
      | _ \<Rightarrow> None)"

text \<open>
  \<^verbatim>\<open>Number(s)\<close> of a text: white space around the text is ignored, the empty text is
  0, a \<open>StrNumericLiteral\<close> has its value, anything else is \<open>NaN\<close>.
\<close>

definition Number_of_text :: "string \<Rightarrow> jsnum" where
  "Number_of_text s0 =
     (let s = trim s0
      in if s = [] then Fin 0
         else (case non_decimal s of
                 Some r \<Rightarrow> r
               | None \<Rightarrow>
                   (case s of
                      c # t \<Rightarrow>
                        if c = CHR ''-'' then js_neg (unsigned_decimal t)
                        else if c = CHR ''+'' then unsigned_decimal t
                        else unsigned_decimal s
                    | [] \<Rightarrow> Fin 0)))"

subsection \<open>Values\<close>

datatype jsval = JUndefined | JNull | JBool bool | JNum jsnum | JStr string

fun truthy :: "jsval \<Rightarrow> bool" where
  "truthy JUndefined = False"
| "truthy JNull = False"
| "truthy (JBool b) = b"
| "truthy (JNum x) = truthy_num x"
| "truthy (JStr s) = (s \<noteq> [])"

fun to_String :: "jsval \<Rightarrow> string" where
  "to_String JUndefined = ''undefined''"
| "to_String JNull = ''null''"
| "to_String (JBool b) = (if b then ''true'' else ''false'')"
| "to_String (JNum x) = number_text x"
| "to_String (JStr s) = s"

text \<open>\<^verbatim>\<open>a || b\<close>.\<close>

definition js_or :: "jsval \<Rightarrow> jsval \<Rightarrow> jsval" where
  "js_or a b = (if truthy a then a else b)"

subsection \<open>Business helpers\<close>

definition FINANCE_CUSTOMERS :: "string set" where
  "FINANCE_CUSTOMERS = {''BAJAJ FINANCE LTD'', ''TVS FINANCE LTD'', ''HDB FINANCE LTD''}"

text \<open>
  \<^verbatim>\<open>Number(String(val).replace(/,/g, "").trim())\<close>. For a number the three steps are
  the identity: the text that \<^verbatim>\<open>String\<close> gives of a number has no comma and no white
  space around it, and the language definition chooses its digits so that
  \<^verbatim>\<open>Number\<close> reads the same number back (\<open>NaN\<close> prints as \<^verbatim>\<open>NaN\<close>, which reads as
  \<open>NaN\<close>). So a number is taken as it is, whatever its size, and not through
  \<open>number_text\<close>, which prints a bounded number of digits in fixed notation; where
  \<open>number_text\<close> prints the number in full the two agree (\<open>cleaned_Number_printed\<close>).
\<close>

fun cleaned_Number :: "jsval \<Rightarrow> jsnum" where
  "cleaned_Number (JNum x) = x"
| "cleaned_Number val = Number_of_text (trim (strip_commas (to_String val)))"

definition num :: "jsval \<Rightarrow> jsnum" where
  "num val =
     (if val = JUndefined \<or> val = JNull \<or> val = JStr '''' then Fin 0
      else (let n = cleaned_Number val
            in if isNaN n then Fin 0 else n))"

definition isSparesItem :: "jsval \<Rightarrow> bool" where
  "isSparesItem itemModel =
     (if \<not> truthy itemModel then False
      else startsWith (toUpperCase (trim (to_String itemModel))) ''SPARES'')"

definition normalizeInvoiceNo :: "jsval \<Rightarrow> string" where
  "normalizeInvoiceNo v =
     (if \<not> truthy v then ''''
      else strip_trailing_stars (toUpperCase (trim (to_String v))))"

subsection \<open>The achievement accumulator\<close>

record achievement =
  ownAchievement :: jsnum
  otherAchievement :: jsnum
  totalAchievement :: jsnum

text \<open>
  The collection of monthly achievements has a unique index on salesperson, year and
  month, so it is a map from that key to the stored totals.
\<close>

type_synonym ach_key = "nat \<times> jsnum \<times> jsnum"
type_synonym ach_store = "ach_key \<rightharpoonup> achievement"

definition upsertAchievement ::
  "ach_store \<Rightarrow> nat \<Rightarrow> jsnum \<Rightarrow> jsnum \<Rightarrow> jsnum \<Rightarrow> jsnum \<Rightarrow> ach_store" where
  "upsertAchievement db salespersonId year month ownDelta otherDelta =
     (let totalDelta = ownDelta + otherDelta
      in (case db (salespersonId, year, month) of
            Some existing \<Rightarrow>
              db((salespersonId, year, month) \<mapsto>
                 existing\<lparr>ownAchievement := ownAchievement existing + ownDelta,
                          otherAchievement := otherAchievement existing + otherDelta,
                          totalAchievement := totalAchievement existing + totalDelta\<rparr>)
          | None \<Rightarrow>
              db((salespersonId, year, month) \<mapsto>
                 \<lparr>ownAchievement = ownDelta,
                  otherAchievement = otherDelta,
                  totalAchievement = totalDelta\<rparr>)))"

subsection \<open>Invoice aggregation in processRowsForSalesperson\<close>

text \<open>
  A row object: \<open>row label\<close> is the value of \<^verbatim>\<open>row[label]\<close>, which is
  \<^verbatim>\<open>undefined\<close> for a label the row does not have.
\<close>

type_synonym rawrow = "string \<Rightarrow> jsval"

record item =
  model :: jsval
  brand :: jsval
  netAmount :: jsnum

record invoice =
  invoiceNo :: string
  customer :: jsval
  netInvoice :: jsnum
  amountRealised :: jsnum
  invoiceValue :: jsnum
  ccCharges :: jsnum
  negRoundOff :: jsnum
  posRoundOff :: jsnum
  cashDiscount :: jsnum
  items :: "item list"

text \<open>The trimmed text of the invoice-number cell of a row, empty when the cell is blank.\<close>

definition invNoRaw_of :: "rawrow \<Rightarrow> string" where
  "invNoRaw_of row =
     (let invNoRaw = js_or (js_or (js_or (js_or (row ''Invoice No.'') (row ''Invoice No''))
                                         (row ''INVOICE NO'')) (row ''Invoice'')) (row ''Inv No'')
      in if truthy invNoRaw then trim (to_String invNoRaw) else [])"

definition invValueCandidate :: "rawrow \<Rightarrow> jsnum" where
  "invValueCandidate row = num (js_or (row ''Invoice Value'') (row ''Inv Value''))"

definition ccCandidate :: "rawrow \<Rightarrow> jsnum" where
  "ccCandidate row = num (row ''(+) CREDIT CARD CHARGES'')"

definition negCandidate :: "rawrow \<Rightarrow> jsnum" where
  "negCandidate row = num (row ''(-) Round Off'')"

definition posCandidate :: "rawrow \<Rightarrow> jsnum" where
  "posCandidate row = num (row ''(+) Round Off'')"

definition cashCandidate :: "rawrow \<Rightarrow> jsnum" where
  "cashCandidate row = num (row ''(-) CASH DISCOUNT'')"

definition netInvCandidate :: "rawrow \<Rightarrow> jsnum" where
  "netInvCandidate row = num (js_or (row ''Net Invoice'') (row ''Net Inv''))"

definition amtRealCandidate :: "rawrow \<Rightarrow> jsnum" where
  "amtRealCandidate row = num (js_or (row ''Amount Realised'') (row ''Amt Realised''))"

text \<open>The invoice object made for the first row of an invoice number.\<close>

definition new_invoice :: "string \<Rightarrow> rawrow \<Rightarrow> invoice" where
  "new_invoice normInvNo row =
     \<lparr>invoiceNo = normInvNo,
      customer = js_or (js_or (js_or (js_or (row ''Customer'') (row ''Financier/Customer''))
                                     (row ''Financier / Customer'')) (row ''Party'')) (JStr []),
      netInvoice = netInvCandidate row,
      amountRealised = amtRealCandidate row,
      invoiceValue = invValueCandidate row,
      ccCharges = ccCandidate row,
      negRoundOff = negCandidate row,
      posRoundOff = posCandidate row,
      cashDiscount = cashCandidate row,
      items = []\<rparr>"

text \<open>A later row of an invoice fills the invoice-level numbers that are still missing.\<close>

definition fill_invoiceValue :: "rawrow \<Rightarrow> invoice \<Rightarrow> invoice" where
  "fill_invoiceValue row invc =
     (if \<not> truthy_num (invoiceValue invc) \<and> truthy_num (invValueCandidate row)
      then invc\<lparr>invoiceValue := invValueCandidate row\<rparr> else invc)"

definition fill_ccCharges :: "rawrow \<Rightarrow> invoice \<Rightarrow> invoice" where
  "fill_ccCharges row invc =
     (if \<not> truthy_num (ccCharges invc) \<and> truthy_num (ccCandidate row)
      then invc\<lparr>ccCharges := ccCandidate row\<rparr> else invc)"

definition fill_negRoundOff :: "rawrow \<Rightarrow> invoice \<Rightarrow> invoice" where
  "fill_negRoundOff row invc =
     (if \<not> truthy_num (negRoundOff invc) \<and> truthy_num (negCandidate row)
      then invc\<lparr>negRoundOff := negCandidate row\<rparr> else invc)"

definition fill_posRoundOff :: "rawrow \<Rightarrow> invoice \<Rightarrow> invoice" where
  "fill_posRoundOff row invc =
     (if \<not> truthy_num (posRoundOff invc) \<and> truthy_num (posCandidate row)
      then invc\<lparr>posRoundOff := posCandidate row\<rparr> else invc)"

definition fill_cashDiscount :: "rawrow \<Rightarrow> invoice \<Rightarrow> invoice" where
  "fill_cashDiscount row invc =
     (if \<not> truthy_num (cashDiscount invc) \<and> truthy_num (cashCandidate row)
      then invc\<lparr>cashDiscount := cashCandidate row\<rparr> else invc)"

definition fill_netInvoice :: "rawrow \<Rightarrow> invoice \<Rightarrow> invoice" where
  "fill_netInvoice row invc =
     (if \<not> truthy_num (netInvoice invc) \<and> truthy_num (netInvCandidate row)
      then invc\<lparr>netInvoice := netInvCandidate row\<rparr> else invc)"

definition fill_amountRealised :: "rawrow \<Rightarrow> invoice \<Rightarrow> invoice" where
  "fill_amountRealised row invc =
     (if \<not> truthy_num (amountRealised invc) \<and> truthy_num (amtRealCandidate row)
      then invc\<lparr>amountRealised := amtRealCandidate row\<rparr> else invc)"

text \<open>The seven statements of the \<^verbatim>\<open>else\<close> branch, in the order of the source.\<close>

definition fill_invoice :: "rawrow \<Rightarrow> invoice \<Rightarrow> invoice" where
  "fill_invoice row invc =
     fill_amountRealised row
       (fill_netInvoice row
          (fill_cashDiscount row
             (fill_posRoundOff row
                (fill_negRoundOff row
                   (fill_ccCharges row
                      (fill_invoiceValue row invc))))))"

definition line_item :: "rawrow \<Rightarrow> item" where
  "line_item row =
     \<lparr>model = js_or (js_or (row ''Item/Model'') (row ''Item'')) (JStr []),
      brand = js_or (row ''Brand'') (JStr []),
      netAmount = num (js_or (row ''Net Amount'') (row ''Net Amt''))\<rparr>"

definition push_item :: "rawrow \<Rightarrow> invoice \<Rightarrow> invoice" where
  "push_item row invc = invc\<lparr>items := items invc @ [line_item row]\<rparr>"

text \<open>
  One turn of the first loop. The state is the \<^verbatim>\<open>invoices\<close> map, an association list
  in insertion order, and \<^verbatim>\<open>lastInvNo\<close>, which is \<open>None\<close> for \<^verbatim>\<open>null\<close>.
\<close>

type_synonym agg_state = "(string \<times> invoice) list \<times> string option"

definition aggregate_step :: "agg_state \<Rightarrow> rawrow \<Rightarrow> agg_state" where
  "aggregate_step st row =
     (case st of (invoices, lastInvNo) \<Rightarrow>
        (let invNoRaw = invNoRaw_of row;
             normInvNo = (if invNoRaw \<noteq> [] then Some (normalizeInvoiceNo (JStr invNoRaw))
                          else lastInvNo)
         in (case normInvNo of
               None \<Rightarrow> st
             | Some n \<Rightarrow>
                 if n = [] then st
                 else (let lastInvNo' = (if invNoRaw \<noteq> [] then normInvNo else lastInvNo);
                           invc = (case map_of invoices n of
                                    None \<Rightarrow> new_invoice n row
                                  | Some inv0 \<Rightarrow> fill_invoice row inv0)
                       in (AList.update n (push_item row invc) invoices, lastInvNo')))))"

definition aggregate :: "rawrow list \<Rightarrow> agg_state" where
  "aggregate rows = foldl aggregate_step ([], None) rows"

subsection \<open>Reconciliation in processRowsForSalesperson\<close>

record salesperson =
  sp_id :: nat
  sp_name :: string
  sp_brand :: "string option"
  sp_section :: "string option"

text \<open>\<^verbatim>\<open>Salesperson.findOne({ name })\<close> on a collection with unique names.\<close>

type_synonym directory = "string \<rightharpoonup> salesperson"

definition ownBrand_of :: "string option \<Rightarrow> string option" where
  "ownBrand_of b =
     (case b of None \<Rightarrow> None | Some s \<Rightarrow> if s \<noteq> [] then Some (toUpperCase s) else None)"

text \<open>One line item; the state is \<^verbatim>\<open>sparesTotal\<close>, \<^verbatim>\<open>ownNet\<close>, \<^verbatim>\<open>otherNet\<close>.\<close>

definition item_step ::
  "string option \<Rightarrow> jsnum \<times> jsnum \<times> jsnum \<Rightarrow> item \<Rightarrow> jsnum \<times> jsnum \<times> jsnum" where
  "item_step ownBrand acc it =
     (case acc of (sparesTotal, ownNet, otherNet) \<Rightarrow>
        (let model_text = to_String (js_or (model it) (JStr []));
             net = or_zero (netAmount it)
         in if \<not> truthy_num net then acc
            else if isSparesItem (JStr model_text) then (sparesTotal + net, ownNet, otherNet)
            else (let modelUpper = toUpperCase model_text
                  in if (case ownBrand of None \<Rightarrow> False
                         | Some b \<Rightarrow> b \<noteq> [] \<and> startsWith modelUpper b)
                     then (sparesTotal, ownNet + net, otherNet)
                     else (sparesTotal, ownNet, otherNet + net))))"

definition line_totals :: "string option \<Rightarrow> item list \<Rightarrow> jsnum \<times> jsnum \<times> jsnum" where
  "line_totals ownBrand its = foldl (item_step ownBrand) (Fin 0, Fin 0, Fin 0) its"

definition finalInvoiceValue :: "invoice \<Rightarrow> jsnum" where
  "finalInvoiceValue invc =
     js_sub (js_sub (js_sub (invoiceValue invc) (ccCharges invc)) (negRoundOff invc)
             + posRoundOff invc) (cashDiscount invc)"

definition adjustedInvoice :: "string option \<Rightarrow> invoice \<Rightarrow> jsnum" where
  "adjustedInvoice ownBrand invc =
     js_sub (finalInvoiceValue invc) (fst (line_totals ownBrand (items invc)))"

definition canonical_customer :: "invoice \<Rightarrow> string" where
  "canonical_customer invc = toUpperCase (trim (to_String (js_or (customer invc) (JStr []))))"

definition isMismatch :: "invoice \<Rightarrow> bool" where
  "isMismatch invc =
     (\<not> strict_eq (Math_round (or_zero (netInvoice invc)))
                   (Math_round (or_zero (amountRealised invc))))"

definition isFinanceCustomer :: "invoice \<Rightarrow> bool" where
  "isFinanceCustomer invc = (canonical_customer invc \<in> FINANCE_CUSTOMERS)"

text \<open>
  One turn of the second loop; the state is \<^verbatim>\<open>totalOwn\<close> and \<^verbatim>\<open>totalOther\<close>.
  \<^verbatim>\<open>adjustedInvoice\<close> is only printed by the source and takes no part in the
  totals.
\<close>

definition invoice_step ::
  "string option \<Rightarrow> string set \<Rightarrow> jsnum \<times> jsnum \<Rightarrow> string \<times> invoice \<Rightarrow> jsnum \<times> jsnum" where
  "invoice_step ownBrand returnInvoiceSet tot entry =
     (case entry of (invKey, invc) \<Rightarrow>
        if invKey \<in> returnInvoiceSet then tot
        else (case line_totals ownBrand (items invc) of (sparesTotal, ownNet, otherNet) \<Rightarrow>
                if isMismatch invc \<and> \<not> isFinanceCustomer invc then tot
                else if strict_eq ownNet (Fin 0) \<and> strict_eq otherNet (Fin 0) then tot
                else (fst tot + ownNet, snd tot + otherNet)))"

definition reconcile ::
  "string option \<Rightarrow> string set \<Rightarrow> (string \<times> invoice) list \<Rightarrow> jsnum \<times> jsnum" where
  "reconcile ownBrand returnInvoiceSet invoices =
     foldl (invoice_step ownBrand returnInvoiceSet) (Fin 0, Fin 0) invoices"

definition processRowsForSalesperson ::
  "directory \<Rightarrow> ach_store \<Rightarrow> rawrow list \<Rightarrow> string \<Rightarrow> jsnum \<Rightarrow> jsnum \<Rightarrow> jsnum \<Rightarrow> string set
     \<Rightarrow> ach_store" where
  "processRowsForSalesperson dir db rows salespersonName year month factor returnInvoiceSet =
     (let invoices = fst (aggregate rows)
      in (case dir (toUpperCase (trim salespersonName)) of
            None \<Rightarrow> db
          | Some sp \<Rightarrow>
              (let ownBrand = ownBrand_of (sp_brand sp);
                   tot = reconcile ownBrand returnInvoiceSet invoices;
                   finalOwn = js_mul factor (fst tot);
                   finalOther = js_mul factor (snd tot)
               in upsertAchievement db (sp_id sp) year month finalOwn finalOther)))"

subsection \<open>The return list\<close>

text \<open>\<open>cell_at rowArr i\<close> is \<^verbatim>\<open>rowArr[i]\<close>, \<^verbatim>\<open>undefined\<close> beyond the end of the array.\<close>

definition cell_at :: "jsval list \<Rightarrow> nat \<Rightarrow> jsval" where
  "cell_at rowArr i = (if i < length rowArr then rowArr ! i else JUndefined)"

definition is_ref_doc_header :: "jsval \<Rightarrow> bool" where
  "is_ref_doc_header c = startsWith (toUpperCase (trim (to_String c))) ''REF. DOC''"

definition return_row_step :: "nat \<Rightarrow> string set \<Rightarrow> jsval list \<Rightarrow> string set" where
  "return_row_step refColIndex returnSet rowArr =
     (let raw = trim (to_String (js_or (cell_at rowArr refColIndex) (JStr [])))
      in if raw = [] then returnSet
         else (let firstToken = takeWhile (\<lambda>c. \<not> is_ws c) raw;
                   norm = normalizeInvoiceNo (JStr firstToken)
               in if norm \<noteq> [] then insert norm returnSet else returnSet))"

definition extractReturnInvoiceSet :: "jsval list list \<Rightarrow> string set" where
  "extractReturnInvoiceSet rows =
     (case rows of
        [] \<Rightarrow> {}
      | headerRow # rest \<Rightarrow>
          (let refColIndex = (if list_ex is_ref_doc_header headerRow
                              then length (takeWhile (\<lambda>c. \<not> is_ref_doc_header c) headerRow)
                              else 0)
           in foldl (return_row_step refColIndex) {} rest))"

subsection \<open>The block segmenter of processExcelFileMulti\<close>

definition firstCell :: "jsval list \<Rightarrow> string" where
  "firstCell rowArr = trim (to_String (js_or (cell_at rowArr 0) (JStr [])))"

definition secondCell :: "jsval list \<Rightarrow> string" where
  "secondCell rowArr = trim (to_String (js_or (cell_at rowArr 1) (JStr [])))"

text \<open>
  The tests \<^verbatim>\<open>/^word$/i\<close> and \<^verbatim>\<open>/^word\s*:/i\<close> of the source, for an upper-case
  \<open>word\<close>.
\<close>

definition matches_word :: "string \<Rightarrow> string \<Rightarrow> bool" where
  "matches_word word s = (toUpperCase s = word)"

definition matches_label :: "string \<Rightarrow> string \<Rightarrow> bool" where
  "matches_label word s =
     (prefix word (toUpperCase s) \<and>
      (case dropWhile is_ws (drop (length word) s) of [] \<Rightarrow> False | c # _ \<Rightarrow> c = CHR '':''))"

text \<open>\<^verbatim>\<open>s.split(":")[1]\<close>, empty when there is no second part.\<close>

definition second_part :: "string \<Rightarrow> string" where
  "second_part s =
     (case dropWhile (\<lambda>c. c \<noteq> CHR '':'') s of
        [] \<Rightarrow> []
      | _ # t \<Rightarrow> takeWhile (\<lambda>c. c \<noteq> CHR '':'') t)"

definition isRowEmpty :: "jsval list \<Rightarrow> bool" where
  "isRowEmpty rowArr = list_all (\<lambda>cell. trim (to_String (js_or cell (JStr []))) = []) rowArr"

text \<open>The row object of a detail row, labelled by the cells of the shared header.\<close>

definition make_row :: "jsval list \<Rightarrow> jsval list \<Rightarrow> rawrow" where
  "make_row globalHeader rowArr =
     foldl (\<lambda>rowObj (h, idx). if \<not> truthy h then rowObj
                                else rowObj(trim (to_String h) := cell_at rowArr idx))
           (\<lambda>_. JUndefined) (zip globalHeader [0..<length globalHeader])"

text \<open>
  The state of the scan: \<^verbatim>\<open>currentSalesperson\<close>, \<^verbatim>\<open>rowsBySalesperson\<close> with its
  names in the order of their first appearance, and \<^verbatim>\<open>globalHeader\<close>.
\<close>

record seg_state =
  currentSalesperson :: "string option"
  rowsBySalesperson :: "(string \<times> rawrow list) list"
  globalHeader :: "jsval list option"

definition segment_step :: "seg_state \<Rightarrow> jsval list \<Rightarrow> seg_state" where
  "segment_step st rowArr =
     (if includes_text (toUpperCase (secondCell rowArr)) ''TOTAL'' then st
      else if globalHeader st = None \<and> matches_word ''DATE'' (firstCell rowArr)
      then st\<lparr>globalHeader := Some rowArr\<rparr>
      else if matches_label ''SALESPERSON'' (firstCell rowArr)
      then (let namePart = trim (second_part (firstCell rowArr))
            in if namePart = [] then st\<lparr>currentSalesperson := None\<rparr>
               else st\<lparr>currentSalesperson := Some (toUpperCase namePart),
                       rowsBySalesperson :=
                         (if map_of (rowsBySalesperson st) (toUpperCase namePart) = None
                          then rowsBySalesperson st @ [(toUpperCase namePart, [])]
                          else rowsBySalesperson st)\<rparr>)
      else (case (currentSalesperson st, globalHeader st) of
              (Some cur, Some header) \<Rightarrow>
                if cur = [] then st
                else if isRowEmpty rowArr
                   \<or> matches_word ''TOTAL'' (firstCell rowArr)
                   \<or> matches_word ''GRAND TOTAL'' (firstCell rowArr)
                   \<or> matches_label ''BRANCH'' (firstCell rowArr)
                   \<or> matches_label ''PERIOD'' (firstCell rowArr)
                then st
                else st\<lparr>rowsBySalesperson :=
                          AList.map_entry cur (\<lambda>rs. rs @ [make_row header rowArr])
                            (rowsBySalesperson st)\<rparr>
            | _ \<Rightarrow> st))"

definition segment :: "jsval list list \<Rightarrow> seg_state" where
  "segment rows =
     foldl segment_step
       \<lparr>currentSalesperson = None, rowsBySalesperson = [], globalHeader = None\<rparr> rows"

text \<open>
  \<^verbatim>\<open>Object.keys\<close>: the names that are array indices come first, in ascending order, the
  others follow in the order of their insertion.
\<close>

definition is_array_index :: "string \<Rightarrow> bool" where
  "is_array_index s =
     (s \<noteq> [] \<and> list_all is_digit s \<and> (s = ''0'' \<or> hd s \<noteq> CHR ''0'')
      \<and> digits_value 10 s < 4294967295)"

definition object_keys :: "(string \<times> 'a) list \<Rightarrow> string list" where
  "object_keys obj =
     sort_key (digits_value 10) (filter is_array_index (map fst obj))
     @ filter (\<lambda>k. \<not> is_array_index k) (map fst obj)"

definition process_block ::
  "directory \<Rightarrow> (string \<times> rawrow list) list \<Rightarrow> jsnum \<Rightarrow> jsnum \<Rightarrow> string set
     \<Rightarrow> ach_store \<Rightarrow> string \<Rightarrow> ach_store" where
  "process_block dir blocks year month returnInvoiceSet db name =
     (case map_of blocks name of
        None \<Rightarrow> db
      | Some blockRows \<Rightarrow>
          if blockRows = [] then db
          else processRowsForSalesperson dir db blockRows name year month (Fin 1)
                 returnInvoiceSet)"

definition processExcelFileMulti ::
  "directory \<Rightarrow> ach_store \<Rightarrow> jsval list list \<Rightarrow> jsnum \<Rightarrow> jsnum \<Rightarrow> string set \<Rightarrow> ach_store" where
  "processExcelFileMulti dir db rows year month returnInvoiceSet =
     (let blocks = rowsBySalesperson (segment rows)
      in foldl (process_block dir blocks year month returnInvoiceSet) db (object_keys blocks))"

subsection \<open>The upload route\<close>

text \<open>
  A request carries the two text fields of its body and the cell grids of the uploaded
  files; the answer is a status code with its message. What the spreadsheet reader, the
  file system and the database driver may raise is outside the model, so the handler's
  \<^verbatim>\<open>catch\<close> branch does not appear.
\<close>

record upload_request =
  req_year :: jsval
  req_month :: jsval
  salesFile :: "jsval list list option"
  returnsFile :: "jsval list list option"
  fallbackFile :: "jsval list list option"

datatype response = Response nat string

fun to_Number :: "jsval \<Rightarrow> jsnum" where
  "to_Number JUndefined = NaN"
| "to_Number JNull = Fin 0"
| "to_Number (JBool b) = (if b then Fin 1 else Fin 0)"
| "to_Number (JNum x) = x"
| "to_Number (JStr s) = Number_of_text s"

text \<open>\<^verbatim>\<open>MonthlyAchievement.deleteMany({ year, month })\<close>.\<close>

definition deleteMany :: "ach_store \<Rightarrow> jsnum \<Rightarrow> jsnum \<Rightarrow> ach_store" where
  "deleteMany db year month =
     (\<lambda>k. case k of (sp, y, m) \<Rightarrow> if y = year \<and> m = month then None else db k)"

definition upload_sales :: "directory \<Rightarrow> ach_store \<Rightarrow> upload_request \<Rightarrow> response \<times> ach_store" where
  "upload_sales dir db req =
     (if \<not> truthy (req_year req) \<or> \<not> truthy (req_month req)
      then (Response 400 ''year and month are required'', db)
      else (let yearNum = to_Number (req_year req);
                monthNum = to_Number (req_month req);
                db1 = deleteMany db yearNum monthNum;
                salesUploaded = (case salesFile req of Some f \<Rightarrow> Some f | None \<Rightarrow> fallbackFile req)
            in (case salesUploaded of
                  None \<Rightarrow> (Response 400 ''Sales Excel file is required'', db1)
                | Some sales \<Rightarrow>
                    (let returnInvoiceSet = (case returnsFile req of
                                               Some r \<Rightarrow> extractReturnInvoiceSet r
                                             | None \<Rightarrow> {});
                         db2 = processExcelFileMulti dir db1 sales yearNum monthNum
                                 returnInvoiceSet
                     in (Response 200
                           ''Sales processed successfully (returns used to skip invoices)'',
                         db2)))))"

subsection \<open>The classes of line items, in the words of the specification\<close>

text \<open>
  The text of a line's model, its net amount, and the three classes of lines: spares,
  own brand and other brand. A line is an own-brand line when the salesperson has a
  brand that is neither \<^verbatim>\<open>null\<close> nor empty and the upper-cased model starts with
  the upper-cased brand.
\<close>

definition model_text :: "item \<Rightarrow> string" where
  "model_text it = to_String (js_or (model it) (JStr []))"

definition line_net :: "item \<Rightarrow> jsnum" where
  "line_net it = or_zero (netAmount it)"

definition spares_line :: "item \<Rightarrow> bool" where
  "spares_line it = startsWith (toUpperCase (trim (model_text it))) ''SPARES''"

definition own_line :: "string option \<Rightarrow> item \<Rightarrow> bool" where
  "own_line b it =
     (case b of
        None \<Rightarrow> False
      | Some s \<Rightarrow> s \<noteq> [] \<and> \<not> spares_line it
                  \<and> startsWith (toUpperCase (model_text it)) (toUpperCase s))"

definition other_line :: "string option \<Rightarrow> item \<Rightarrow> bool" where
  "other_line b it = (\<not> spares_line it \<and> \<not> own_line b it)"

text \<open>The sum of a list of amounts, added one after the other to 0.\<close>

definition sum_in_order :: "jsnum list \<Rightarrow> jsnum" where
  "sum_in_order xs = foldl (+) (Fin 0) xs"

subsection \<open>The rows of an invoice, in the words of the specification\<close>

text \<open>
  The canonical invoice number written in a row (empty when the cell is blank), the last
  non-blank canonical number seen in a sequence of rows, the number a row is assigned
  after the rows before it, and the rows of a block that are assigned the number \<open>k\<close>, in
  row order. A row with a blank cell inherits the last number seen, and is dropped when
  there is none.
\<close>

definition canonical_no :: "rawrow \<Rightarrow> string" where
  "canonical_no row = normalizeInvoiceNo (JStr (invNoRaw_of row))"

definition last_seen :: "rawrow list \<Rightarrow> string option" where
  "last_seen rows =
     (let seen = filter (\<lambda>n. n \<noteq> []) (map canonical_no rows)
      in if seen = [] then None else Some (last seen))"

definition row_number :: "rawrow list \<Rightarrow> rawrow \<Rightarrow> string option" where
  "row_number before row =
     (if invNoRaw_of row = [] then last_seen before
      else if canonical_no row = [] then None
      else Some (canonical_no row))"

definition invoice_rows :: "string \<Rightarrow> rawrow list \<Rightarrow> rawrow list" where
  "invoice_rows k rows =
     [rows ! i. i \<leftarrow> [0..<length rows], row_number (take i rows) (rows ! i) = Some k]"

text \<open>What a later row of an invoice does to the invoice object.\<close>

definition absorb :: "invoice \<Rightarrow> rawrow \<Rightarrow> invoice" where
  "absorb i r = push_item r (fill_invoice r i)"

text \<open>The first non-zero value of a list of numbers, 0 when there is none.\<close>

definition first_nonzero :: "jsnum list \<Rightarrow> jsnum" where
  "first_nonzero xs = (case filter truthy_num xs of [] \<Rightarrow> Fin 0 | x # _ \<Rightarrow> x)"

subsection \<open>Header rows, in the words of the specification\<close>

text \<open>
  A row whose first cell equals \<^verbatim>\<open>Date\<close> whatever the case of its letters, a row whose
  second cell contains \<^verbatim>\<open>total\<close>, and the rows from which the shared header can be
  taken: the former that are not the latter.
\<close>

definition is_date_row :: "jsval list \<Rightarrow> bool" where
  "is_date_row rowArr = (toUpperCase (firstCell rowArr) = ''DATE'')"

definition is_total_row :: "jsval list \<Rightarrow> bool" where
  "is_total_row rowArr = includes_text (toUpperCase (secondCell rowArr)) ''TOTAL''"

definition header_row :: "jsval list \<Rightarrow> bool" where
  "header_row rowArr = (is_date_row rowArr \<and> \<not> is_total_row rowArr)"

text \<open>The state of a scan that has no header and no parsed row.\<close>

definition no_rows :: "seg_state \<Rightarrow> bool" where
  "no_rows st = (globalHeader st = None \<and> (\<forall>b \<in> set (rowsBySalesperson st). snd b = []))"

subsection \<open>Decimal texts, in the words of the specification\<close>

text \<open>
  A decimal text is an optional sign, digits, and optionally a point followed by
  digits; its value is the number it denotes. The text a cell is read from is the text
  of the cell without its commas and without the white space around it.
\<close>

definition unsigned_part :: "string \<Rightarrow> string" where
  "unsigned_part s =
     (case s of [] \<Rightarrow> [] | c # t \<Rightarrow> if c = CHR ''-'' \<or> c = CHR ''+'' then t else s)"

definition fraction_part :: "string \<Rightarrow> string" where
  "fraction_part t = (case dropWhile is_digit t of [] \<Rightarrow> [] | _ # f \<Rightarrow> f)"

definition is_decimal_text :: "string \<Rightarrow> bool" where
  "is_decimal_text s =
     (let t = unsigned_part s; rest = dropWhile is_digit t
      in takeWhile is_digit t \<noteq> [] \<and>
         (rest = [] \<or> (hd rest = CHR ''.'' \<and> tl rest \<noteq> [] \<and> list_all is_digit (tl rest))))"

definition decimal_value :: "string \<Rightarrow> rat" where
  "decimal_value s =
     (let t = unsigned_part s;
          m = of_int (digits_value 10 (takeWhile is_digit t))
              + of_int (digits_value 10 (fraction_part t)) / 10 ^ length (fraction_part t)
      in if s \<noteq> [] \<and> hd s = CHR ''-'' then - m else m)"

definition cell_text :: "jsval \<Rightarrow> string" where
  "cell_text v = trim (strip_commas (to_String v))"

subsection \<open>Numeric literals, in the words of the language definition\<close>

text \<open>
  The texts that \<^verbatim>\<open>Number\<close> reads as a number, the empty text apart, are the numeric
  literals of the language definition. A literal is given here by its parts:
  \<^item> a decimal literal: a sign, the digits before the point, whether there is a point,
    the digits after it, and an exponent, which is the letter \<^verbatim>\<open>e\<close> in either case, a
    sign and digits. A sign is empty, \<^verbatim>\<open>+\<close> or \<^verbatim>\<open>-\<close>; there is a digit on at least
    one side of the point, and the exponent may be absent;
  \<^item> the word \<^verbatim>\<open>Infinity\<close> after a sign;
  \<^item> an integer literal without a sign: \<^verbatim>\<open>0\<close>, one of the letters \<^verbatim>\<open>x\<close>, \<^verbatim>\<open>o\<close>,
    \<^verbatim>\<open>b\<close> in either case, and at least one digit of the base 16, 8 or 2.
  The value of a run of digits counts its last digit once, the digit before it as many
  times as the base, and so on.
\<close>

datatype literal =
    Decimal string string bool string "(char \<times> string \<times> string) option"
  | Infinite string
  | Radix char string

definition decimal_digit :: "char \<Rightarrow> bool" where
  "decimal_digit c = (c \<in> set ''0123456789'')"

definition digit_of :: "char \<Rightarrow> int option" where
  "digit_of =
     map_of [(CHR ''0'', 0), (CHR ''1'', 1), (CHR ''2'', 2), (CHR ''3'', 3), (CHR ''4'', 4),
             (CHR ''5'', 5), (CHR ''6'', 6), (CHR ''7'', 7), (CHR ''8'', 8), (CHR ''9'', 9),
             (CHR ''a'', 10), (CHR ''b'', 11), (CHR ''c'', 12), (CHR ''d'', 13),
             (CHR ''e'', 14), (CHR ''f'', 15),
             (CHR ''A'', 10), (CHR ''B'', 11), (CHR ''C'', 12), (CHR ''D'', 13),
             (CHR ''E'', 14), (CHR ''F'', 15)]"

definition radix_digit :: "int \<Rightarrow> char \<Rightarrow> bool" where
  "radix_digit b c = (case digit_of c of None \<Rightarrow> False | Some d \<Rightarrow> d < b)"

fun units_first :: "int \<Rightarrow> string \<Rightarrow> int" where
  "units_first b [] = 0"
| "units_first b (c # cs) =
     (case digit_of c of None \<Rightarrow> 0 | Some d \<Rightarrow> d) + b * units_first b cs"

definition numeral_value :: "int \<Rightarrow> string \<Rightarrow> int" where
  "numeral_value b ds = units_first b (rev ds)"

definition sign_text :: "string \<Rightarrow> bool" where
  "sign_text sg = (sg = [] \<or> sg = ''+'' \<or> sg = ''-'')"

definition radix_of :: "char \<Rightarrow> int" where
  "radix_of x =
     (if x = CHR ''x'' \<or> x = CHR ''X'' then 16
      else if x = CHR ''o'' \<or> x = CHR ''O'' then 8
      else if x = CHR ''b'' \<or> x = CHR ''B'' then 2
      else 0)"

fun exponent_ok :: "(char \<times> string \<times> string) option \<Rightarrow> bool" where
  "exponent_ok None = True"
| "exponent_ok (Some (c, sg, ds)) =
     ((c = CHR ''e'' \<or> c = CHR ''E'') \<and> sign_text sg \<and> ds \<noteq> [] \<and> list_all decimal_digit ds)"

fun exponent_text :: "(char \<times> string \<times> string) option \<Rightarrow> string" where
  "exponent_text None = []"
| "exponent_text (Some (c, sg, ds)) = c # sg @ ds"

fun exponent_value :: "(char \<times> string \<times> string) option \<Rightarrow> int" where
  "exponent_value None = 0"
| "exponent_value (Some (c, sg, ds)) =
     (if sg = ''-'' then - numeral_value 10 ds else numeral_value 10 ds)"

fun literal_ok :: "literal \<Rightarrow> bool" where
  "literal_ok (Decimal sg ip pt fp ex) =
     (sign_text sg \<and> list_all decimal_digit ip \<and> list_all decimal_digit fp
      \<and> (ip \<noteq> [] \<or> fp \<noteq> []) \<and> (pt \<or> fp = []) \<and> exponent_ok ex)"
| "literal_ok (Infinite sg) = sign_text sg"
| "literal_ok (Radix x ds) =
     (radix_of x \<noteq> 0 \<and> ds \<noteq> [] \<and> list_all (radix_digit (radix_of x)) ds)"

fun literal_text :: "literal \<Rightarrow> string" where
  "literal_text (Decimal sg ip pt fp ex) =
     sg @ ip @ (if pt then ''.'' else []) @ fp @ exponent_text ex"
| "literal_text (Infinite sg) = sg @ ''Infinity''"
| "literal_text (Radix x ds) = CHR ''0'' # x # ds"

fun literal_value :: "literal \<Rightarrow> jsnum" where
  "literal_value (Decimal sg ip pt fp ex) =
     (let m = (of_int (numeral_value 10 ip)
               + of_int (numeral_value 10 fp) / 10 ^ length fp) * 10 powi exponent_value ex
      in Fin (if sg = ''-'' then - m else m))"
| "literal_value (Infinite sg) = (if sg = ''-'' then NInf else PInf)"
| "literal_value (Radix x ds) = Fin (of_int (numeral_value (radix_of x) ds))"

section \<open>Properties\<close>

subsection \<open>Texts and numbers\<close>

lemma upper_char_idem: "upper_char (upper_char c) = upper_char c"
  by (auto simp: upper_char_def Let_def of_char_of)

lemma upper_char_ws: "is_ws (upper_char c) = is_ws c"
  by (auto simp: upper_char_def Let_def is_ws_def of_char_of)

lemma rev_dropWhile_split: "rev (dropWhile P (rev t)) @ rev (takeWhile P (rev t)) = t"
proof -
  have "rev (takeWhile P (rev t) @ dropWhile P (rev t)) = t" by simp
  then show ?thesis by (simp only: rev_append)
qed

lemma last_rev_dropWhile:
  assumes "rev (dropWhile P (rev t)) \<noteq> []"
  shows "\<not> P (last (rev (dropWhile P (rev t))))"
proof -
  from assms have ne: "dropWhile P (rev t) \<noteq> []" by simp
  then have "\<not> P (hd (dropWhile P (rev t)))" by (rule hd_dropWhile)
  with ne show ?thesis by (simp add: last_rev)
qed

lemma hd_rev_dropWhile:
  assumes "rev (dropWhile P (rev t)) \<noteq> []"
  shows "hd (rev (dropWhile P (rev t))) = hd t"
proof -
  from hd_append2 [OF assms, of "rev (takeWhile P (rev t))"]
  show ?thesis by (simp only: rev_dropWhile_split)
qed

lemma length_rev_dropWhile: "length (rev (dropWhile P (rev t))) \<le> length t"
  using length_dropWhile_le [of P "rev t"] by simp

lemma trim_hd: "trim s \<noteq> [] \<Longrightarrow> \<not> is_ws (hd (trim s))"
proof -
  assume ne: "trim s \<noteq> []"
  let ?d = "dropWhile is_ws s"
  have "?d = [] \<Longrightarrow> trim s = []" by (simp only: trim_def rev.simps dropWhile.simps)
  with ne have dne: "?d \<noteq> []" by blast
  from ne have "hd (trim s) = hd ?d" unfolding trim_def by (rule hd_rev_dropWhile)
  moreover from dne have "\<not> is_ws (hd ?d)" by (rule hd_dropWhile)
  ultimately show ?thesis by simp
qed

lemma trim_fixed:
  assumes "r \<noteq> []" "\<not> is_ws (hd r)" "\<not> is_ws (last r)"
  shows "trim r = r"
proof -
  from assms have a: "dropWhile is_ws r = r" by (cases r) auto
  from assms have "rev r \<noteq> []" "\<not> is_ws (hd (rev r))" by (simp_all add: hd_rev)
  then have "dropWhile is_ws (rev r) = rev r" by (cases "rev r") auto
  with a show ?thesis by (simp add: trim_def)
qed

lemma dropWhile_rev_last:
  "d \<noteq> [] \<Longrightarrow> P (last d) \<Longrightarrow> dropWhile P (rev d) = dropWhile P (rev (butlast d))"
  by (cases d rule: rev_cases) simp_all

lemma trim_shorter:
  assumes "r \<noteq> []" "is_ws (last r)"
  shows "length (trim r) < length r"
proof (cases "dropWhile is_ws r = []")
  case True
  then have "trim r = []" by (simp only: trim_def rev.simps dropWhile.simps)
  with assms show ?thesis by simp
next
  case False
  let ?d = "dropWhile is_ws r"
  have "r = takeWhile is_ws r @ ?d" by simp
  with False have "last r = last ?d" by (metis last_appendR)
  with assms have ws: "is_ws (last ?d)" by simp
  from False ws have "dropWhile is_ws (rev ?d) = dropWhile is_ws (rev (butlast ?d))"
    by (rule dropWhile_rev_last)
  then have "length (trim r) \<le> length (butlast ?d)"
    using length_dropWhile_le [of is_ws "rev (butlast ?d)"] by (simp add: trim_def)
  also from False have "\<dots> < length ?d" by simp
  also have "\<dots> \<le> length r" by (rule length_dropWhile_le)
  finally show ?thesis .
qed

lemma trim_last: "trim s \<noteq> [] \<Longrightarrow> \<not> is_ws (last (trim s))"
  unfolding trim_def by (rule last_rev_dropWhile)

lemma trim_trim: "trim (trim s) = trim s"
proof (cases "trim s = []")
  case True
  have "trim [] = []" by (simp add: trim_def)
  with True show ?thesis by simp
next
  case False
  then show ?thesis by (intro trim_fixed trim_hd trim_last)
qed

lemma num_not_NaN: "num v \<noteq> NaN"
  by (simp add: num_def isNaN_def Let_def)

lemma num_falsy: "\<not> truthy_num (num v) \<Longrightarrow> num v = Fin 0"
  using num_not_NaN [of v] by (simp add: truthy_num_def)

subsection \<open>C1: the credit-mismatch rule\<close>

lemma invoice_step_mismatch:
  assumes "isMismatch invc" "canonical_customer invc \<notin> FINANCE_CUSTOMERS"
  shows "invoice_step ownBrand rs tot (k, invc) = tot"
  using assms by (simp add: invoice_step_def isFinanceCustomer_def split: prod.splits)

text \<open>
  C1. An invoice with a mismatch whose canonical customer is not a finance customer
  leaves \<^verbatim>\<open>totalOwn\<close> and \<^verbatim>\<open>totalOther\<close> as they are, so the totals of a block are
  those of the block without that invoice. For a finance customer the turn of the loop
  does not look at the mismatch: only the return list and the all-zero test can skip the
  invoice. The mismatch is the inequality of the two rounded amounts.
\<close>

theorem credit_mismatch_rule:
  "(isMismatch invc \<and> canonical_customer invc \<notin> FINANCE_CUSTOMERS \<longrightarrow>
      invoice_step ownBrand rs tot (k, invc) = tot \<and>
      reconcile ownBrand rs (pre @ [(k, invc)] @ post) = reconcile ownBrand rs (pre @ post)) \<and>
   (canonical_customer invc \<in> FINANCE_CUSTOMERS \<longrightarrow>
      invoice_step ownBrand rs tot (k, invc) =
        (if k \<in> rs then tot
         else (case line_totals ownBrand (items invc) of
                 (sparesTotal, ownNet, otherNet) \<Rightarrow>
                   if strict_eq ownNet (Fin 0) \<and> strict_eq otherNet (Fin 0) then tot
                   else (fst tot + ownNet, snd tot + otherNet)))) \<and>
   (netInvoice invc \<noteq> NaN \<and> amountRealised invc \<noteq> NaN \<longrightarrow>
      isMismatch invc = (Math_round (netInvoice invc) \<noteq> Math_round (amountRealised invc)))"
proof (intro conjI impI)
  assume h: "isMismatch invc \<and> canonical_customer invc \<notin> FINANCE_CUSTOMERS"
  then show "invoice_step ownBrand rs tot (k, invc) = tot"
    by (simp add: invoice_step_mismatch)
  from h have "\<And>t. invoice_step ownBrand rs t (k, invc) = t"
    by (simp add: invoice_step_mismatch)
  then show "reconcile ownBrand rs (pre @ [(k, invc)] @ post) = reconcile ownBrand rs (pre @ post)"
    by (simp add: reconcile_def)
next
  assume "canonical_customer invc \<in> FINANCE_CUSTOMERS"
  then show "invoice_step ownBrand rs tot (k, invc) =
        (if k \<in> rs then tot
         else (case line_totals ownBrand (items invc) of
                 (sparesTotal, ownNet, otherNet) \<Rightarrow>
                   if strict_eq ownNet (Fin 0) \<and> strict_eq otherNet (Fin 0) then tot
                   else (fst tot + ownNet, snd tot + otherNet)))"
    by (simp add: invoice_step_def isFinanceCustomer_def split: prod.splits)
next
  assume h: "netInvoice invc \<noteq> NaN \<and> amountRealised invc \<noteq> NaN"
  have r: "\<And>x. x \<noteq> NaN \<Longrightarrow> Math_round (or_zero x) = Math_round x"
    by (simp add: or_zero_def truthy_num_def)
  have n: "\<And>x. x \<noteq> NaN \<Longrightarrow> Math_round x \<noteq> NaN"
    subgoal for x by (cases x) simp_all
    done
  from h show "isMismatch invc = (Math_round (netInvoice invc) \<noteq> Math_round (amountRealised invc))"
    by (simp add: isMismatch_def strict_eq_def r n)
qed

theorem credit_mismatch_rule_witness:
  "reconcile None {}
     [(''INV1'',
       \<lparr>invoiceNo = ''INV1'', customer = JStr ''RANDOM CUSTOMER'',
        netInvoice = Fin 1000, amountRealised = Fin 999, invoiceValue = Fin 1000,
        ccCharges = Fin 0, negRoundOff = Fin 0, posRoundOff = Fin 0, cashDiscount = Fin 0,
        items = [\<lparr>model = JStr ''ACME 7'', brand = JStr [], netAmount = Fin 1000\<rparr>]\<rparr>)]
     = (Fin 0, Fin 0) \<and>
   Math_round (Fin 1000) \<noteq> Math_round (Fin 999) \<and>
   invoice_step None {} (Fin 0, Fin 0)
     (''INV1'',
       \<lparr>invoiceNo = ''INV1'', customer = JStr ''BAJAJ FINANCE LTD'',
        netInvoice = Fin 1000, amountRealised = Fin 999, invoiceValue = Fin 1000,
        ccCharges = Fin 0, negRoundOff = Fin 0, posRoundOff = Fin 0, cashDiscount = Fin 0,
        items = [\<lparr>model = JStr ''ACME 7'', brand = JStr [], netAmount = Fin 1000\<rparr>]\<rparr>)
     = (Fin 0, Fin 1000)"
proof -
  let ?its = "[\<lparr>model = JStr ''ACME 7'', brand = JStr [], netAmount = Fin 1000\<rparr>]"
  let ?random = "\<lparr>invoiceNo = ''INV1'', customer = JStr ''RANDOM CUSTOMER'',
        netInvoice = Fin 1000, amountRealised = Fin 999, invoiceValue = Fin 1000,
        ccCharges = Fin 0, negRoundOff = Fin 0, posRoundOff = Fin 0, cashDiscount = Fin 0,
        items = ?its\<rparr>"
  let ?bajaj = "\<lparr>invoiceNo = ''INV1'', customer = JStr ''BAJAJ FINANCE LTD'',
        netInvoice = Fin 1000, amountRealised = Fin 999, invoiceValue = Fin 1000,
        ccCharges = Fin 0, negRoundOff = Fin 0, posRoundOff = Fin 0, cashDiscount = Fin 0,
        items = ?its\<rparr>"
  have m: "isMismatch ?random \<and> canonical_customer ?random \<notin> FINANCE_CUSTOMERS"
    by code_simp
  have f: "canonical_customer ?bajaj \<in> FINANCE_CUSTOMERS" by code_simp
  have t: "line_totals None ?its = (Fin 0, Fin 0, Fin 1000)" by code_simp
  have e: "reconcile None {} [] = (Fin 0, Fin 0)" by (simp add: reconcile_def)
  note a = credit_mismatch_rule [of ?random None "{}" "(Fin 0, Fin 0)" "''INV1''" "[]" "[]"]
  note b = credit_mismatch_rule [of ?bajaj None "{}" "(Fin 0, Fin 0)" "''INV1''" "[]" "[]"]
  from a m e have 1: "reconcile None {} [(''INV1'', ?random)] = (Fin 0, Fin 0)" by simp
  from a m have 2: "Math_round (Fin 1000) \<noteq> Math_round (Fin 999)" by simp
  from b f t have 3: "invoice_step None {} (Fin 0, Fin 0) (''INV1'', ?bajaj) = (Fin 0, Fin 1000)"
    by (simp add: strict_eq_def)
  from 1 2 3 show ?thesis by blast
qed

subsection \<open>C2: the classes of line items\<close>

lemma toUpperCase_Nil: "toUpperCase s = [] \<longleftrightarrow> s = []"
  by (simp add: toUpperCase_def)

lemma isSparesItem_text: "isSparesItem (JStr m) = startsWith (toUpperCase (trim m)) ''SPARES''"
  by (cases "m = []") (simp_all add: isSparesItem_def startsWith_def trim_def toUpperCase_def)

lemma add_Fin_0: "x + Fin 0 = x"
  by (cases x) simp_all

lemma line_net_falsy: "\<not> truthy_num (line_net it) \<Longrightarrow> line_net it = Fin 0"
  by (auto simp: line_net_def or_zero_def truthy_num_def split: if_splits)

lemma item_step_classes:
  "item_step (ownBrand_of b) (s, own, oth) it =
     (s + (if spares_line it then line_net it else Fin 0),
      own + (if own_line b it then line_net it else Fin 0),
      oth + (if other_line b it then line_net it else Fin 0))"
proof (cases "truthy_num (line_net it)")
  case False
  then have "line_net it = Fin 0" by (rule line_net_falsy)
  with False show ?thesis
    by (simp add: item_step_def Let_def line_net_def add_Fin_0)
next
  case True
  then show ?thesis
    by (cases b)
       (auto simp: item_step_def Let_def line_net_def model_text_def
          isSparesItem_text spares_line_def own_line_def other_line_def
          ownBrand_of_def add_Fin_0 toUpperCase_Nil)
qed

lemma foldl_item_step:
  "foldl (item_step (ownBrand_of b)) (s, own, oth) its =
     (foldl (+) s (map line_net (filter spares_line its)),
      foldl (+) own (map line_net (filter (own_line b) its)),
      foldl (+) oth (map line_net (filter (other_line b) its)))"
proof (induction its arbitrary: s own oth)
  case Nil
  show ?case by simp
next
  case (Cons it its)
  show ?case by (simp add: item_step_classes Cons.IH add_Fin_0)
qed

text \<open>
  C2, as the code has it. For a salesperson with brand \<open>b\<close>, the three sums of an
  invoice are the sums, in the order of the lines, of the net amounts of its spares
  lines, of its own-brand lines and of its other lines; every line is in exactly one
  class, and a line with a zero net amount changes no sum. A line is an own-brand line
  when it is not a spares line, the brand is neither \<^verbatim>\<open>null\<close> nor empty, and the
  upper-cased model starts with the upper-cased brand; with a \<^verbatim>\<open>null\<close> or empty
  brand every line that is not a spares line is an other line.
\<close>

theorem line_totals_by_class:
  "line_totals (ownBrand_of b) its =
     (sum_in_order (map line_net (filter spares_line its)),
      sum_in_order (map line_net (filter (own_line b) its)),
      sum_in_order (map line_net (filter (other_line b) its)))
   \<and> (\<forall>it. \<not> (spares_line it \<and> own_line b it) \<and> \<not> (spares_line it \<and> other_line b it)
            \<and> \<not> (own_line b it \<and> other_line b it)
            \<and> (spares_line it \<or> own_line b it \<or> other_line b it))
   \<and> (\<forall>acc it. line_net it = Fin 0 \<longrightarrow> item_step (ownBrand_of b) acc it = acc)
   \<and> (b = None \<or> b = Some [] \<longrightarrow> (\<forall>it. other_line b it = (\<not> spares_line it)))"
proof (intro conjI)
  show "line_totals (ownBrand_of b) its =
     (sum_in_order (map line_net (filter spares_line its)),
      sum_in_order (map line_net (filter (own_line b) its)),
      sum_in_order (map line_net (filter (other_line b) its)))"
    unfolding line_totals_def by (simp add: foldl_item_step sum_in_order_def)
  show "\<forall>it. \<not> (spares_line it \<and> own_line b it) \<and> \<not> (spares_line it \<and> other_line b it)
            \<and> \<not> (own_line b it \<and> other_line b it)
            \<and> (spares_line it \<or> own_line b it \<or> other_line b it)"
    by (auto simp: own_line_def other_line_def split: option.splits)
  show "\<forall>acc it. line_net it = Fin 0 \<longrightarrow> item_step (ownBrand_of b) acc it = acc"
    by (auto simp: item_step_def Let_def line_net_def truthy_num_def)
  show "b = None \<or> b = Some [] \<longrightarrow> (\<forall>it. other_line b it = (\<not> spares_line it))"
    by (auto simp: own_line_def other_line_def)
qed

theorem line_totals_by_class_witness:
  "sum_in_order (map line_net (filter spares_line
     [\<lparr>model = JStr ''VIDEUM X200'', brand = JStr [], netAmount = Fin 5000\<rparr>,
      \<lparr>model = JStr ''SPARES-X'', brand = JStr [], netAmount = Fin 200\<rparr>,
      \<lparr>model = JStr ''ACME 7'', brand = JStr [], netAmount = Fin 300\<rparr>,
      \<lparr>model = JStr ''ACME 8'', brand = JStr [], netAmount = Fin 0\<rparr>])) = Fin 200 \<and>
   sum_in_order (map line_net (filter (own_line (Some ''VIDEUM''))
     [\<lparr>model = JStr ''VIDEUM X200'', brand = JStr [], netAmount = Fin 5000\<rparr>,
      \<lparr>model = JStr ''SPARES-X'', brand = JStr [], netAmount = Fin 200\<rparr>,
      \<lparr>model = JStr ''ACME 7'', brand = JStr [], netAmount = Fin 300\<rparr>,
      \<lparr>model = JStr ''ACME 8'', brand = JStr [], netAmount = Fin 0\<rparr>])) = Fin 5000 \<and>
   sum_in_order (map line_net (filter (other_line (Some ''VIDEUM''))
     [\<lparr>model = JStr ''VIDEUM X200'', brand = JStr [], netAmount = Fin 5000\<rparr>,
      \<lparr>model = JStr ''SPARES-X'', brand = JStr [], netAmount = Fin 200\<rparr>,
      \<lparr>model = JStr ''ACME 7'', brand = JStr [], netAmount = Fin 300\<rparr>,
      \<lparr>model = JStr ''ACME 8'', brand = JStr [], netAmount = Fin 0\<rparr>])) = Fin 300 \<and>
   other_line None \<lparr>model = JStr ''VIDEUM X200'', brand = JStr [], netAmount = Fin 5000\<rparr>"
proof -
  let ?its = "[\<lparr>model = JStr ''VIDEUM X200'', brand = JStr [], netAmount = Fin 5000\<rparr>,
      \<lparr>model = JStr ''SPARES-X'', brand = JStr [], netAmount = Fin 200\<rparr>,
      \<lparr>model = JStr ''ACME 7'', brand = JStr [], netAmount = Fin 300\<rparr>,
      \<lparr>model = JStr ''ACME 8'', brand = JStr [], netAmount = Fin 0\<rparr>]"
  have v: "line_totals (ownBrand_of (Some ''VIDEUM'')) ?its = (Fin 200, Fin 5000, Fin 300)"
    by code_simp
  have n: "\<not> spares_line \<lparr>model = JStr ''VIDEUM X200'', brand = JStr [], netAmount = Fin 5000\<rparr>"
    by code_simp
  from line_totals_by_class [of "Some ''VIDEUM''" ?its] v
  have 1: "(sum_in_order (map line_net (filter spares_line ?its)),
            sum_in_order (map line_net (filter (own_line (Some ''VIDEUM'')) ?its)),
            sum_in_order (map line_net (filter (other_line (Some ''VIDEUM'')) ?its)))
           = (Fin 200, Fin 5000, Fin 300)"
    by (elim conjE) (simp only:)
  from line_totals_by_class [of None "[]"] n
  have 2: "other_line None \<lparr>model = JStr ''VIDEUM X200'', brand = JStr [], netAmount = Fin 5000\<rparr>"
    by blast
  from 1 2 show ?thesis by (simp only: prod.inject simp_thms)
qed

text \<open>
  The claim as it is written fails for a salesperson whose stored brand is the empty
  text: the brand is not \<^verbatim>\<open>null\<close> and every model starts with it, yet the line is
  counted as other.
\<close>

theorem own_line_empty_brand:
  "line_totals (ownBrand_of (Some []))
     [\<lparr>model = JStr ''VIDEUM X200'', brand = JStr [], netAmount = Fin 5000\<rparr>]
     = (Fin 0, Fin 0, Fin 5000)
   \<and> startsWith (toUpperCase ''VIDEUM X200'') []
   \<and> \<not> isSparesItem (JStr ''VIDEUM X200'')"
  by code_simp

subsection \<open>C3: the invoice number normaliser\<close>

lemma normalize_text:
  "normalizeInvoiceNo (JStr s) = strip_trailing_stars (toUpperCase (trim s))"
  by (cases "s = []")
     (simp_all add: normalizeInvoiceNo_def trim_def strip_trailing_stars_def toUpperCase_def)

lemma normalize_upper: "toUpperCase (normalizeInvoiceNo (JStr s)) = normalizeInvoiceNo (JStr s)"
proof -
  let ?u = "toUpperCase (trim s)"
  let ?stars = "rev (takeWhile (\<lambda>c. c = CHR ''*'') (rev ?u))"
  have u: "toUpperCase ?u = ?u" by (simp add: toUpperCase_def upper_char_idem)
  have split: "strip_trailing_stars ?u @ ?stars = ?u"
    unfolding strip_trailing_stars_def by (rule rev_dropWhile_split)
  have "toUpperCase (strip_trailing_stars ?u) @ toUpperCase ?stars = toUpperCase ?u"
    unfolding toUpperCase_def map_append [symmetric] using split by (simp add: toUpperCase_def)
  with u split have "toUpperCase (strip_trailing_stars ?u) = strip_trailing_stars ?u"
    by (metis append_eq_append_conv length_map toUpperCase_def)
  then show ?thesis by (simp add: normalize_text)
qed

lemma normalize_hd:
  assumes "normalizeInvoiceNo (JStr s) \<noteq> []"
  shows "\<not> is_ws (hd (normalizeInvoiceNo (JStr s)))"
proof -
  from assms have ne: "rev (dropWhile (\<lambda>c. c = CHR ''*'') (rev (toUpperCase (trim s)))) \<noteq> []"
    by (simp add: normalize_text strip_trailing_stars_def)
  then have "hd (normalizeInvoiceNo (JStr s)) = hd (toUpperCase (trim s))"
    unfolding normalize_text strip_trailing_stars_def by (rule hd_rev_dropWhile)
  moreover from ne have tne: "trim s \<noteq> []" by (auto simp: toUpperCase_def)
  then have "hd (toUpperCase (trim s)) = upper_char (hd (trim s))"
    by (simp add: toUpperCase_def hd_map)
  moreover from tne have "\<not> is_ws (hd (trim s))" by (rule trim_hd)
  ultimately show ?thesis by (simp add: upper_char_ws)
qed

lemma normalize_last:
  assumes "normalizeInvoiceNo (JStr s) \<noteq> []"
  shows "last (normalizeInvoiceNo (JStr s)) \<noteq> CHR ''*''"
  using assms last_rev_dropWhile [of "\<lambda>c. c = CHR ''*''" "toUpperCase (trim s)"]
  by (simp add: normalize_text strip_trailing_stars_def)

lemma strip_fixed:
  assumes "r \<noteq> []" "last r \<noteq> CHR ''*''"
  shows "strip_trailing_stars r = r"
proof -
  from assms have "rev r \<noteq> []" "hd (rev r) \<noteq> CHR ''*''" by (simp_all add: hd_rev)
  then have "dropWhile (\<lambda>c. c = CHR ''*'') (rev r) = rev r" by (cases "rev r") auto
  then show ?thesis by (simp add: strip_trailing_stars_def)
qed

text \<open>
  C3, as the code has it. \<^verbatim>\<open>normalizeInvoiceNo\<close> maps \<^verbatim>\<open>"gi/16909*  "\<close> to
  \<^verbatim>\<open>"GI/16909"\<close>. Applying it twice gives the result of applying it once exactly when
  that result is empty or does not end in white space: the stars are removed after the
  trimming, so white space in front of the trailing stars stays at the end of the result.
\<close>

theorem normalizeInvoiceNo_twice:
  "normalizeInvoiceNo (JStr ''gi/16909*  '') = ''GI/16909'' \<and>
   (normalizeInvoiceNo (JStr (normalizeInvoiceNo (JStr s))) = normalizeInvoiceNo (JStr s)
      \<longleftrightarrow> normalizeInvoiceNo (JStr s) = [] \<or> \<not> is_ws (last (normalizeInvoiceNo (JStr s))))"
proof
  show "normalizeInvoiceNo (JStr ''gi/16909*  '') = ''GI/16909''" by code_simp
next
  let ?r = "normalizeInvoiceNo (JStr s)"
  show "normalizeInvoiceNo (JStr ?r) = ?r \<longleftrightarrow> ?r = [] \<or> \<not> is_ws (last ?r)"
  proof (cases "?r = []")
    case True
    then show ?thesis by (simp add: normalizeInvoiceNo_def)
  next
    case False
    show ?thesis
    proof (cases "is_ws (last ?r)")
      case True
      have "length (normalizeInvoiceNo (JStr ?r)) \<le> length (toUpperCase (trim ?r))"
        unfolding normalize_text strip_trailing_stars_def by (rule length_rev_dropWhile)
      also have "\<dots> = length (trim ?r)" by (simp add: toUpperCase_def)
      also from False True have "\<dots> < length ?r" by (rule trim_shorter)
      finally have "normalizeInvoiceNo (JStr ?r) \<noteq> ?r" by auto
      with False True show ?thesis by simp
    next
      case ws: False
      from False have "\<not> is_ws (hd ?r)" by (rule normalize_hd)
      with False ws have "trim ?r = ?r" by (intro trim_fixed)
      moreover have "toUpperCase ?r = ?r" by (rule normalize_upper)
      moreover from False have "strip_trailing_stars ?r = ?r"
        by (intro strip_fixed normalize_last)
      ultimately have "normalizeInvoiceNo (JStr ?r) = ?r"
        by (simp add: normalize_text [of ?r])
      with False ws show ?thesis by simp
    qed
  qed
qed

theorem normalizeInvoiceNo_twice_witness:
  "normalizeInvoiceNo (JStr (normalizeInvoiceNo (JStr ''gi/16909*  ''))) = ''GI/16909'' \<and>
   \<not> is_ws (last (normalizeInvoiceNo (JStr ''gi/16909*  '')))"
proof -
  have v: "normalizeInvoiceNo (JStr ''gi/16909*  '') = ''GI/16909''" by code_simp
  have w: "\<not> is_ws (last ''GI/16909'')" by code_simp
  from normalizeInvoiceNo_twice [of "''gi/16909*  ''"] v w show ?thesis by simp
qed

text \<open>
  The claim as it is written fails on \<^verbatim>\<open>"a *"\<close>: the first application gives
  \<^verbatim>\<open>"A "\<close>, the second \<^verbatim>\<open>"A"\<close>.
\<close>

theorem normalizeInvoiceNo_not_idempotent:
  "normalizeInvoiceNo (JStr ''a *'') = ''A '' \<and>
   normalizeInvoiceNo (JStr (normalizeInvoiceNo (JStr ''a *''))) = ''A'' \<and>
   normalizeInvoiceNo (JStr (normalizeInvoiceNo (JStr ''a *''))) \<noteq> normalizeInvoiceNo (JStr ''a *'')"
  by code_simp

subsection \<open>C4: uploads with a missing input\<close>

lemma upload_without_period:
  "\<not> truthy (req_year req) \<or> \<not> truthy (req_month req) \<Longrightarrow>
     upload_sales dir db req = (Response 400 ''year and month are required'', db)"
  by (auto simp: upload_sales_def)

text \<open>
  C4 fails on the code. A request with a year and a month and no sales file is answered
  with status 400, but the handler has cleared the period before it looks for the file:
  the record stored for November 2025 is gone. (A request without a year or a month is
  rejected before the collection is touched, by the lemma above.)
\<close>

theorem upload_without_sales_file_clears_period:
  "fst (upload_sales Map.empty
     (Map.empty((7, Fin 2025, Fin 11) \<mapsto>
        \<lparr>ownAchievement = Fin 100, otherAchievement = Fin 50, totalAchievement = Fin 150\<rparr>))
     \<lparr>req_year = JStr ''2025'', req_month = JStr ''11'', salesFile = None,
      returnsFile = None, fallbackFile = None\<rparr>)
     = Response 400 ''Sales Excel file is required''
   \<and> snd (upload_sales Map.empty
     (Map.empty((7, Fin 2025, Fin 11) \<mapsto>
        \<lparr>ownAchievement = Fin 100, otherAchievement = Fin 50, totalAchievement = Fin 150\<rparr>))
     \<lparr>req_year = JStr ''2025'', req_month = JStr ''11'', salesFile = None,
      returnsFile = None, fallbackFile = None\<rparr>) (7, Fin 2025, Fin 11) = None"
proof -
  have y: "Number_of_text ''2025'' = Fin 2025" by code_simp
  have m: "Number_of_text ''11'' = Fin 11" by code_simp
  show ?thesis by (simp add: upload_sales_def Let_def y m deleteMany_def)
qed

theorem upload_without_sales_file_clears_period_witness:
  "snd (upload_sales Map.empty
     (Map.empty((7, Fin 2025, Fin 11) \<mapsto>
        \<lparr>ownAchievement = Fin 100, otherAchievement = Fin 50, totalAchievement = Fin 150\<rparr>))
     \<lparr>req_year = JStr ''2025'', req_month = JStr ''11'', salesFile = None,
      returnsFile = None, fallbackFile = None\<rparr>)
   \<noteq> Map.empty((7, Fin 2025, Fin 11) \<mapsto>
        \<lparr>ownAchievement = Fin 100, otherAchievement = Fin 50, totalAchievement = Fin 150\<rparr>)"
proof
  let ?db = "Map.empty((7::nat, Fin 2025, Fin 11) \<mapsto>
        \<lparr>ownAchievement = Fin 100, otherAchievement = Fin 50, totalAchievement = Fin 150\<rparr>)"
  let ?req = "\<lparr>req_year = JStr ''2025'', req_month = JStr ''11'', salesFile = None,
      returnsFile = None, fallbackFile = None\<rparr>"
  assume "snd (upload_sales Map.empty ?db ?req) = ?db"
  then have "snd (upload_sales Map.empty ?db ?req) (7, Fin 2025, Fin 11)
               = ?db (7, Fin 2025, Fin 11)"
    by (rule arg_cong)
  with upload_without_sales_file_clears_period show False by simp
qed

subsection \<open>C5: the accumulator\<close>

text \<open>
  The equality of a stored total with the sum of the two stored parts is not among the
  properties below. The program keeps the three sums in doubles and rounds each on its
  own, so the equality is a matter of that rounding, and amounts are exact here.
\<close>

lemma upsertAchievement_at:
  "upsertAchievement db sp y m od ot (sp, y, m) =
     Some (case db (sp, y, m) of
             Some r \<Rightarrow> r\<lparr>ownAchievement := ownAchievement r + od,
                       otherAchievement := otherAchievement r + ot,
                       totalAchievement := totalAchievement r + (od + ot)\<rparr>
           | None \<Rightarrow> \<lparr>ownAchievement = od, otherAchievement = ot, totalAchievement = od + ot\<rparr>)"
  by (simp add: upsertAchievement_def Let_def split: option.split)

lemma upsertAchievement_other:
  "k \<noteq> (sp, y, m) \<Longrightarrow> upsertAchievement db sp y m od ot k = db k"
  by (simp add: upsertAchievement_def Let_def split: option.split)

text \<open>
  C5. A merge adds the two deltas and their sum to the stored record of its key, creates
  the record from the deltas when the key has none, and leaves every other key alone.
  Merging the same deltas twice into a key that had no record stores twice what one
  merge stores.
\<close>

theorem upsertAchievement_additive:
  "(db (sp, y, m) = Some r \<longrightarrow>
      upsertAchievement db sp y m od ot (sp, y, m) =
        Some (r\<lparr>ownAchievement := ownAchievement r + od,
                otherAchievement := otherAchievement r + ot,
                totalAchievement := totalAchievement r + (od + ot)\<rparr>)) \<and>
   (db (sp, y, m) = None \<longrightarrow>
      upsertAchievement db sp y m od ot (sp, y, m) =
        Some \<lparr>ownAchievement = od, otherAchievement = ot, totalAchievement = od + ot\<rparr> \<and>
      upsertAchievement (upsertAchievement db sp y m od ot) sp y m od ot (sp, y, m) =
        Some \<lparr>ownAchievement = od + od, otherAchievement = ot + ot,
              totalAchievement = (od + ot) + (od + ot)\<rparr>) \<and>
   (k \<noteq> (sp, y, m) \<longrightarrow> upsertAchievement db sp y m od ot k = db k)"
  by (simp add: upsertAchievement_at upsertAchievement_other)

theorem upsertAchievement_additive_witness:
  "upsertAchievement
     (Map.empty((7, Fin 2025, Fin 11) \<mapsto>
        \<lparr>ownAchievement = Fin 100, otherAchievement = Fin 50, totalAchievement = Fin 150\<rparr>))
     7 (Fin 2025) (Fin 11) (Fin 10) (Fin 5) (7, Fin 2025, Fin 11) =
     Some \<lparr>ownAchievement = Fin 110, otherAchievement = Fin 55, totalAchievement = Fin 165\<rparr> \<and>
   upsertAchievement (upsertAchievement Map.empty 7 (Fin 2025) (Fin 11) (Fin 10) (Fin 5))
     7 (Fin 2025) (Fin 11) (Fin 10) (Fin 5) (7, Fin 2025, Fin 11) =
     Some \<lparr>ownAchievement = Fin 20, otherAchievement = Fin 10, totalAchievement = Fin 30\<rparr> \<and>
   upsertAchievement Map.empty 7 (Fin 2025) (Fin 11) (Fin 10) (Fin 5) (8, Fin 2025, Fin 11) = None"
  using
    upsertAchievement_additive [of
      "Map.empty((7, Fin 2025, Fin 11) \<mapsto>
         \<lparr>ownAchievement = Fin 100, otherAchievement = Fin 50, totalAchievement = Fin 150\<rparr>)"
      7 "Fin 2025" "Fin 11"
      "\<lparr>ownAchievement = Fin 100, otherAchievement = Fin 50, totalAchievement = Fin 150\<rparr>"
      "Fin 10" "Fin 5" "(7, Fin 2025, Fin 11)"]
    upsertAchievement_additive [of Map.empty 7 "Fin 2025" "Fin 11" undefined
      "Fin 10" "Fin 5" "(8, Fin 2025, Fin 11)"]
  by simp

subsection \<open>C6: rows without an invoice number\<close>

lemma aggregate_snoc: "aggregate (rows @ [r]) = aggregate_step (aggregate rows) r"
  by (simp add: aggregate_def)

lemma canonical_no_blank: "invNoRaw_of r = [] \<Longrightarrow> canonical_no r = []"
  by (simp add: canonical_no_def normalizeInvoiceNo_def)

lemma last_seen_snoc:
  "last_seen (rows @ [r]) = (if canonical_no r \<noteq> [] then Some (canonical_no r) else last_seen rows)"
  by (simp add: last_seen_def Let_def)

lemma last_seen_nonblank: "last_seen rows \<noteq> Some []"
proof (induction rows rule: rev_induct)
  case Nil
  show ?case by (simp add: last_seen_def)
next
  case (snoc r rows)
  then show ?case by (simp add: last_seen_snoc)
qed

lemma aggregate_step_eq:
  "aggregate_step (invoices, last_seen rows) r =
     (case row_number rows r of
        None \<Rightarrow> (invoices, last_seen rows)
      | Some n \<Rightarrow>
          (AList.update n
             (push_item r (case map_of invoices n of
                             None \<Rightarrow> new_invoice n r
                           | Some i \<Rightarrow> fill_invoice r i)) invoices,
           last_seen (rows @ [r])))"
proof (cases "invNoRaw_of r = []")
  case True
  then have c: "canonical_no r = []" by (rule canonical_no_blank)
  show ?thesis
  proof (cases "last_seen rows")
    case None
    with True show ?thesis by (simp add: aggregate_step_def row_number_def)
  next
    case (Some n)
    with last_seen_nonblank [of rows] have "n \<noteq> []" by auto
    with True Some c show ?thesis
      by (simp add: aggregate_step_def row_number_def last_seen_snoc)
  qed
next
  case False
  then show ?thesis
    by (simp add: aggregate_step_def row_number_def last_seen_snoc canonical_no_def Let_def)
qed

lemma aggregate_last: "snd (aggregate rows) = last_seen rows"
proof (induction rows rule: rev_induct)
  case Nil
  show ?case by (simp add: aggregate_def last_seen_def)
next
  case (snoc r rows)
  obtain invoices where a: "aggregate rows = (invoices, last_seen rows)"
    using snoc.IH by (cases "aggregate rows") auto
  show ?case
  proof (cases "row_number rows r")
    case None
    then have "last_seen (rows @ [r]) = last_seen rows"
      by (auto simp: row_number_def last_seen_snoc canonical_no_blank split: if_splits)
    with None a show ?thesis by (simp add: aggregate_snoc aggregate_step_eq)
  next
    case (Some n)
    with a show ?thesis by (simp add: aggregate_snoc aggregate_step_eq)
  qed
qed

lemma aggregate_pair: "aggregate rows = (fst (aggregate rows), last_seen rows)"
  using aggregate_last [of rows] by (cases "aggregate rows") auto

lemma invoice_rows_snoc:
  "invoice_rows k (rows @ [r]) =
     invoice_rows k rows @ (if row_number rows r = Some k then [r] else [])"
proof -
  have "concat (map (\<lambda>i. if row_number (take i (rows @ [r])) ((rows @ [r]) ! i) = Some k
                          then [(rows @ [r]) ! i] else []) [0..<length rows])
      = concat (map (\<lambda>i. if row_number (take i rows) (rows ! i) = Some k
                          then [rows ! i] else []) [0..<length rows])"
    by (rule arg_cong [where f = concat], rule map_cong) (simp_all add: nth_append)
  then show ?thesis by (simp add: invoice_rows_def)
qed


lemma aggregate_lookup:
  "map_of (fst (aggregate rows)) k =
     (case invoice_rows k rows of
        [] \<Rightarrow> None
      | r # rs \<Rightarrow> Some (foldl absorb (push_item r (new_invoice k r)) rs))"
proof (induction rows rule: rev_induct)
  case Nil
  show ?case by (simp add: aggregate_def invoice_rows_def)
next
  case (snoc r rows)
  let ?invs = "fst (aggregate rows)"
  have step: "aggregate (rows @ [r]) = aggregate_step (?invs, last_seen rows) r"
    using aggregate_pair [of rows] by (simp add: aggregate_snoc)
  show ?case
  proof (cases "row_number rows r")
    case None
    with step snoc.IH show ?thesis by (simp add: aggregate_step_eq invoice_rows_snoc)
  next
    case (Some n)
    show ?thesis
    proof (cases "k = n")
      case False
      with Some step snoc.IH show ?thesis
        by (simp add: aggregate_step_eq invoice_rows_snoc update_conv')
    next
      case True
      with Some step snoc.IH show ?thesis
        by (simp add: aggregate_step_eq invoice_rows_snoc update_conv' absorb_def [symmetric]
              split: list.splits)
    qed
  qed
qed


lemma fill_invoiceValue_fields:
  "invoiceValue (fill_invoiceValue r i) =
     (if \<not> truthy_num (invoiceValue i) \<and> truthy_num (invValueCandidate r)
      then invValueCandidate r else invoiceValue i)"
  "ccCharges (fill_invoiceValue r i) = ccCharges i"
  "negRoundOff (fill_invoiceValue r i) = negRoundOff i"
  "posRoundOff (fill_invoiceValue r i) = posRoundOff i"
  "cashDiscount (fill_invoiceValue r i) = cashDiscount i"
  "netInvoice (fill_invoiceValue r i) = netInvoice i"
  "amountRealised (fill_invoiceValue r i) = amountRealised i"
  "items (fill_invoiceValue r i) = items i"
  "invoiceNo (fill_invoiceValue r i) = invoiceNo i"
  by (simp_all add: fill_invoiceValue_def)

lemma fill_ccCharges_fields:
  "ccCharges (fill_ccCharges r i) =
     (if \<not> truthy_num (ccCharges i) \<and> truthy_num (ccCandidate r)
      then ccCandidate r else ccCharges i)"
  "invoiceValue (fill_ccCharges r i) = invoiceValue i"
  "negRoundOff (fill_ccCharges r i) = negRoundOff i"
  "posRoundOff (fill_ccCharges r i) = posRoundOff i"
  "cashDiscount (fill_ccCharges r i) = cashDiscount i"
  "netInvoice (fill_ccCharges r i) = netInvoice i"
  "amountRealised (fill_ccCharges r i) = amountRealised i"
  "items (fill_ccCharges r i) = items i"
  "invoiceNo (fill_ccCharges r i) = invoiceNo i"
  by (simp_all add: fill_ccCharges_def)

lemma fill_negRoundOff_fields:
  "negRoundOff (fill_negRoundOff r i) =
     (if \<not> truthy_num (negRoundOff i) \<and> truthy_num (negCandidate r)
      then negCandidate r else negRoundOff i)"
  "invoiceValue (fill_negRoundOff r i) = invoiceValue i"
  "ccCharges (fill_negRoundOff r i) = ccCharges i"
  "posRoundOff (fill_negRoundOff r i) = posRoundOff i"
  "cashDiscount (fill_negRoundOff r i) = cashDiscount i"
  "netInvoice (fill_negRoundOff r i) = netInvoice i"
  "amountRealised (fill_negRoundOff r i) = amountRealised i"
  "items (fill_negRoundOff r i) = items i"
  "invoiceNo (fill_negRoundOff r i) = invoiceNo i"
  by (simp_all add: fill_negRoundOff_def)

lemma fill_posRoundOff_fields:
  "posRoundOff (fill_posRoundOff r i) =
     (if \<not> truthy_num (posRoundOff i) \<and> truthy_num (posCandidate r)
      then posCandidate r else posRoundOff i)"
  "invoiceValue (fill_posRoundOff r i) = invoiceValue i"
  "ccCharges (fill_posRoundOff r i) = ccCharges i"
  "negRoundOff (fill_posRoundOff r i) = negRoundOff i"
  "cashDiscount (fill_posRoundOff r i) = cashDiscount i"
  "netInvoice (fill_posRoundOff r i) = netInvoice i"
  "amountRealised (fill_posRoundOff r i) = amountRealised i"
  "items (fill_posRoundOff r i) = items i"
  "invoiceNo (fill_posRoundOff r i) = invoiceNo i"
  by (simp_all add: fill_posRoundOff_def)

lemma fill_cashDiscount_fields:
  "cashDiscount (fill_cashDiscount r i) =
     (if \<not> truthy_num (cashDiscount i) \<and> truthy_num (cashCandidate r)
      then cashCandidate r else cashDiscount i)"
  "invoiceValue (fill_cashDiscount r i) = invoiceValue i"
  "ccCharges (fill_cashDiscount r i) = ccCharges i"
  "negRoundOff (fill_cashDiscount r i) = negRoundOff i"
  "posRoundOff (fill_cashDiscount r i) = posRoundOff i"
  "netInvoice (fill_cashDiscount r i) = netInvoice i"
  "amountRealised (fill_cashDiscount r i) = amountRealised i"
  "items (fill_cashDiscount r i) = items i"
  "invoiceNo (fill_cashDiscount r i) = invoiceNo i"
  by (simp_all add: fill_cashDiscount_def)

lemma fill_netInvoice_fields:
  "netInvoice (fill_netInvoice r i) =
     (if \<not> truthy_num (netInvoice i) \<and> truthy_num (netInvCandidate r)
      then netInvCandidate r else netInvoice i)"
  "invoiceValue (fill_netInvoice r i) = invoiceValue i"
  "ccCharges (fill_netInvoice r i) = ccCharges i"
  "negRoundOff (fill_netInvoice r i) = negRoundOff i"
  "posRoundOff (fill_netInvoice r i) = posRoundOff i"
  "cashDiscount (fill_netInvoice r i) = cashDiscount i"
  "amountRealised (fill_netInvoice r i) = amountRealised i"
  "items (fill_netInvoice r i) = items i"
  "invoiceNo (fill_netInvoice r i) = invoiceNo i"
  by (simp_all add: fill_netInvoice_def)

lemma fill_amountRealised_fields:
  "amountRealised (fill_amountRealised r i) =
     (if \<not> truthy_num (amountRealised i) \<and> truthy_num (amtRealCandidate r)
      then amtRealCandidate r else amountRealised i)"
  "invoiceValue (fill_amountRealised r i) = invoiceValue i"
  "ccCharges (fill_amountRealised r i) = ccCharges i"
  "negRoundOff (fill_amountRealised r i) = negRoundOff i"
  "posRoundOff (fill_amountRealised r i) = posRoundOff i"
  "cashDiscount (fill_amountRealised r i) = cashDiscount i"
  "netInvoice (fill_amountRealised r i) = netInvoice i"
  "items (fill_amountRealised r i) = items i"
  "invoiceNo (fill_amountRealised r i) = invoiceNo i"
  by (simp_all add: fill_amountRealised_def)

lemmas fill_fields =
  fill_invoiceValue_fields fill_ccCharges_fields fill_negRoundOff_fields
  fill_posRoundOff_fields fill_cashDiscount_fields fill_netInvoice_fields
  fill_amountRealised_fields

lemma items_absorb: "items (absorb i r) = items i @ [line_item r]"
  by (simp add: absorb_def push_item_def fill_invoice_def fill_fields)

lemma invoiceNo_absorb: "invoiceNo (absorb i r) = invoiceNo i"
  by (simp add: absorb_def push_item_def fill_invoice_def fill_fields)

lemma items_foldl_absorb: "items (foldl absorb i rs) = items i @ map line_item rs"
  by (induction rs arbitrary: i) (simp_all add: items_absorb)

lemma invoiceNo_foldl_absorb: "invoiceNo (foldl absorb i rs) = invoiceNo i"
  by (induction rs arbitrary: i) (simp_all add: invoiceNo_absorb)

lemma last_seen_has_rows: "last_seen rows = Some k \<Longrightarrow> invoice_rows k rows \<noteq> []"
proof (induction rows rule: rev_induct)
  case Nil
  then show ?case by (simp add: last_seen_def)
next
  case (snoc r rows)
  show ?case
  proof (cases "canonical_no r = []")
    case True
    with snoc show ?thesis by (simp add: last_seen_snoc invoice_rows_snoc)
  next
    case False
    then have "invNoRaw_of r \<noteq> []" using canonical_no_blank by blast
    with False snoc.prems have "row_number rows r = Some k"
      by (simp add: last_seen_snoc row_number_def)
    then show ?thesis by (simp add: invoice_rows_snoc)
  qed
qed

lemma aggregate_distinct: "distinct (map fst (fst (aggregate rows)))"
proof (induction rows rule: rev_induct)
  case Nil
  show ?case by (simp add: aggregate_def)
next
  case (snoc r rows)
  have step: "aggregate (rows @ [r]) = aggregate_step (fst (aggregate rows), last_seen rows) r"
    using aggregate_pair [of rows] by (simp add: aggregate_snoc)
  from snoc show ?case
    by (cases "row_number rows r") (simp_all add: step aggregate_step_eq distinct_update)
qed

text \<open>
  C6. After any rows of a block, \<^verbatim>\<open>lastInvNo\<close> is the last non-blank canonical
  invoice number seen. A row with a blank invoice-number cell that comes when no number
  has been seen leaves the state as it is: the row is dropped. When a number \<open>k\<close> has been
  seen, the invoice \<open>k\<close> exists and the row is added to it and to no other invoice. The
  items of every invoice are the line items of the rows assigned to its number, in row
  order, and no number has two invoices.
\<close>

theorem blank_rows_inherit:
  "snd (aggregate rows) = last_seen rows \<and>
   (invNoRaw_of r = [] \<and> last_seen rows = None \<longrightarrow> aggregate (rows @ [r]) = aggregate rows) \<and>
   (invNoRaw_of r = [] \<and> last_seen rows = Some k \<longrightarrow>
      (\<exists>i. map_of (fst (aggregate rows)) k = Some i \<and>
           aggregate (rows @ [r]) =
             (AList.update k (push_item r (fill_invoice r i)) (fst (aggregate rows)), Some k))) \<and>
   (map_of (fst (aggregate rows)) k = Some i \<longrightarrow>
      invoiceNo i = k \<and> items i = map line_item (invoice_rows k rows)) \<and>
   distinct (map fst (fst (aggregate rows)))"
proof (intro conjI impI)
  show "snd (aggregate rows) = last_seen rows" by (rule aggregate_last)
  show "distinct (map fst (fst (aggregate rows)))" by (rule aggregate_distinct)
  have step: "aggregate (rows @ [r]) = aggregate_step (fst (aggregate rows), last_seen rows) r"
    using aggregate_pair [of rows] by (simp add: aggregate_snoc)
  {
    assume h: "invNoRaw_of r = [] \<and> last_seen rows = None"
    then have "row_number rows r = None" by (simp add: row_number_def)
    then have "aggregate_step (fst (aggregate rows), last_seen rows) r
                 = (fst (aggregate rows), last_seen rows)"
      by (simp add: aggregate_step_eq)
    then show "aggregate (rows @ [r]) = aggregate rows"
      by (simp only: step aggregate_pair [symmetric])
  }
  {
    assume h: "invNoRaw_of r = [] \<and> last_seen rows = Some k"
    then have n: "row_number rows r = Some k" by (simp add: row_number_def)
    from h have "invoice_rows k rows \<noteq> []" by (simp add: last_seen_has_rows)
    then obtain i where i: "map_of (fst (aggregate rows)) k = Some i"
      by (cases "invoice_rows k rows") (simp_all add: aggregate_lookup)
    from h have "last_seen (rows @ [r]) = Some k"
      by (simp add: last_seen_snoc canonical_no_blank)
    with n i have "aggregate (rows @ [r]) =
             (AList.update k (push_item r (fill_invoice r i)) (fst (aggregate rows)), Some k)"
      by (simp add: step aggregate_step_eq)
    with i show "\<exists>i. map_of (fst (aggregate rows)) k = Some i \<and>
           aggregate (rows @ [r]) =
             (AList.update k (push_item r (fill_invoice r i)) (fst (aggregate rows)), Some k)"
      by blast
  }
  {
    assume "map_of (fst (aggregate rows)) k = Some i"
    then obtain r0 rs where rs: "invoice_rows k rows = r0 # rs"
      and i: "i = foldl absorb (push_item r0 (new_invoice k r0)) rs"
      by (auto simp: aggregate_lookup split: list.splits)
    show "invoiceNo i = k"
      by (simp add: i invoiceNo_foldl_absorb push_item_def new_invoice_def)
    show "items i = map line_item (invoice_rows k rows)"
      by (simp add: i rs items_foldl_absorb push_item_def new_invoice_def)
  }
qed

theorem blank_rows_inherit_witness:
  "invNoRaw_of ((\<lambda>_. JUndefined)(''Net Amount'' := JStr ''50'')) = []
   \<and> snd (aggregate
      ([(\<lambda>_. JUndefined)(''Invoice No.'' := JStr ''INV1'', ''Net Amount'' := JStr ''100'')]
       @ [(\<lambda>_. JUndefined)(''Net Amount'' := JStr ''50'')])) = Some ''INV1''
   \<and> map fst (fst (aggregate
      ([(\<lambda>_. JUndefined)(''Invoice No.'' := JStr ''INV1'', ''Net Amount'' := JStr ''100'')]
       @ [(\<lambda>_. JUndefined)(''Net Amount'' := JStr ''50'')]))) = [''INV1'']
   \<and> map (map netAmount \<circ> items \<circ> snd) (fst (aggregate
      ([(\<lambda>_. JUndefined)(''Invoice No.'' := JStr ''INV1'', ''Net Amount'' := JStr ''100'')]
       @ [(\<lambda>_. JUndefined)(''Net Amount'' := JStr ''50'')]))) = [[Fin 100, Fin 50]]
   \<and> aggregate ([] @ [(\<lambda>_. JUndefined)(''Net Amount'' := JStr ''50'')]) = aggregate []"
proof -
  let ?r1 = "(\<lambda>_. JUndefined)(''Invoice No.'' := JStr ''INV1'', ''Net Amount'' := JStr ''100'')"
  let ?r2 = "(\<lambda>_. JUndefined)(''Net Amount'' := JStr ''50'')"
  have b: "invNoRaw_of ?r2 = []" by code_simp
  have l: "last_seen [?r1] = Some ''INV1''" by code_simp
  have l0: "last_seen [] = None" by code_simp
  have 1: "map fst (fst (aggregate ([?r1] @ [?r2]))) = [''INV1'']" by code_simp
  have 2: "map (map netAmount \<circ> items \<circ> snd) (fst (aggregate ([?r1] @ [?r2])))
             = [[Fin 100, Fin 50]]" by code_simp
  from blank_rows_inherit [of "[?r1]" ?r2 "''INV1''"] b l
  obtain i where "aggregate ([?r1] @ [?r2]) =
             (AList.update ''INV1'' (push_item ?r2 (fill_invoice ?r2 i)) (fst (aggregate [?r1])),
              Some ''INV1'')"
    by blast
  then have 3: "snd (aggregate ([?r1] @ [?r2])) = Some ''INV1''" by (simp only: snd_conv)
  from blank_rows_inherit [of "[]" ?r2] b l0
  have 4: "aggregate ([] @ [?r2]) = aggregate []" by blast
  from b 1 2 3 4 show ?thesis by blast
qed

subsection \<open>C7: the first non-zero value wins\<close>

lemma keep_first:
  assumes "\<And>i r. F (absorb i r) = (if \<not> truthy_num (F i) \<and> truthy_num (C r) then C r else F i)"
  shows "F (foldl absorb i rs) =
           (case filter truthy_num (F i # map C rs) of [] \<Rightarrow> F i | x # _ \<Rightarrow> x)"
proof (induction rs arbitrary: i)
  case Nil
  show ?case by simp
next
  case (Cons r rs)
  show ?case
    by (cases "truthy_num (F i)"; cases "truthy_num (C r)")
       (simp_all add: Cons.IH assms split: list.splits)
qed

lemma first_of_created:
  assumes "\<And>i r. F (absorb i r) = (if \<not> truthy_num (F i) \<and> truthy_num (C r) then C r else F i)"
    and "F i0 = C r0" and "\<not> truthy_num (C r0) \<longrightarrow> C r0 = Fin 0"
  shows "F (foldl absorb i0 rs) = first_nonzero (map C (r0 # rs))"
  using assms(2,3) by (auto simp: keep_first [of F C, OF assms(1)] first_nonzero_def split: list.splits)

lemma keep_truthy:
  assumes "\<And>i r. F (absorb i r) = (if \<not> truthy_num (F i) \<and> truthy_num (C r) then C r else F i)"
    and "truthy_num (F i)"
  shows "F (foldl absorb i rs) = F i"
  using assms(2) by (simp add: keep_first [of F C, OF assms(1)])

lemma absorb_netInvoice:
  "netInvoice (absorb i r) =
     (if \<not> truthy_num (netInvoice i) \<and> truthy_num (netInvCandidate r) then netInvCandidate r
      else netInvoice i)"
  by (simp add: absorb_def push_item_def fill_invoice_def fill_fields)

lemma absorb_amountRealised:
  "amountRealised (absorb i r) =
     (if \<not> truthy_num (amountRealised i) \<and> truthy_num (amtRealCandidate r) then amtRealCandidate r
      else amountRealised i)"
  by (simp add: absorb_def push_item_def fill_invoice_def fill_fields)

lemma absorb_invoiceValue:
  "invoiceValue (absorb i r) =
     (if \<not> truthy_num (invoiceValue i) \<and> truthy_num (invValueCandidate r) then invValueCandidate r
      else invoiceValue i)"
  by (simp add: absorb_def push_item_def fill_invoice_def fill_fields)

lemma absorb_ccCharges:
  "ccCharges (absorb i r) =
     (if \<not> truthy_num (ccCharges i) \<and> truthy_num (ccCandidate r) then ccCandidate r
      else ccCharges i)"
  by (simp add: absorb_def push_item_def fill_invoice_def fill_fields)

lemma absorb_negRoundOff:
  "negRoundOff (absorb i r) =
     (if \<not> truthy_num (negRoundOff i) \<and> truthy_num (negCandidate r) then negCandidate r
      else negRoundOff i)"
  by (simp add: absorb_def push_item_def fill_invoice_def fill_fields)

lemma absorb_posRoundOff:
  "posRoundOff (absorb i r) =
     (if \<not> truthy_num (posRoundOff i) \<and> truthy_num (posCandidate r) then posCandidate r
      else posRoundOff i)"
  by (simp add: absorb_def push_item_def fill_invoice_def fill_fields)

lemma absorb_cashDiscount:
  "cashDiscount (absorb i r) =
     (if \<not> truthy_num (cashDiscount i) \<and> truthy_num (cashCandidate r) then cashCandidate r
      else cashDiscount i)"
  by (simp add: absorb_def push_item_def fill_invoice_def fill_fields)

lemma invoice_rows_append: "\<exists>xs. invoice_rows k (rows @ later) = invoice_rows k rows @ xs"
proof (induction later rule: rev_induct)
  case Nil
  show ?case by simp
next
  case (snoc r later)
  then obtain xs where xs: "invoice_rows k (rows @ later) = invoice_rows k rows @ xs" by blast
  have "invoice_rows k ((rows @ later) @ [r])
          = invoice_rows k (rows @ later) @ (if row_number (rows @ later) r = Some k then [r] else [])"
    by (rule invoice_rows_snoc)
  then have "invoice_rows k (rows @ later @ [r])
          = invoice_rows k rows @ (xs @ (if row_number (rows @ later) r = Some k then [r] else []))"
    by (simp only: xs append_assoc)
  then show ?case by (rule exI)
qed

lemma aggregate_later:
  assumes "map_of (fst (aggregate rows)) k = Some i"
    and "map_of (fst (aggregate (rows @ later))) k = Some i'"
  shows "\<exists>xs. i' = foldl absorb i xs"
proof -
  from assms(1) obtain r0 rs where rs: "invoice_rows k rows = r0 # rs"
    and i: "i = foldl absorb (push_item r0 (new_invoice k r0)) rs"
    by (auto simp: aggregate_lookup split: list.splits)
  obtain xs where xs: "invoice_rows k (rows @ later) = invoice_rows k rows @ xs"
    using invoice_rows_append by blast
  from assms(2) have "i' = foldl absorb (push_item r0 (new_invoice k r0)) (rs @ xs)"
    by (simp add: aggregate_lookup xs rs)
  with i have "i' = foldl absorb i xs" by simp
  then show ?thesis by blast
qed

text \<open>
  C7. Each of the seven monetary fields of an invoice is the first non-zero value among
  the candidates that the rows of the invoice supply, in row order, and 0 when there is
  none; a field that is non-zero after some rows keeps its value whatever rows follow.
\<close>

theorem first_nonzero_wins:
  "(map_of (fst (aggregate rows)) k = Some i \<longrightarrow>
      netInvoice i = first_nonzero (map netInvCandidate (invoice_rows k rows)) \<and>
      amountRealised i = first_nonzero (map amtRealCandidate (invoice_rows k rows)) \<and>
      invoiceValue i = first_nonzero (map invValueCandidate (invoice_rows k rows)) \<and>
      ccCharges i = first_nonzero (map ccCandidate (invoice_rows k rows)) \<and>
      negRoundOff i = first_nonzero (map negCandidate (invoice_rows k rows)) \<and>
      posRoundOff i = first_nonzero (map posCandidate (invoice_rows k rows)) \<and>
      cashDiscount i = first_nonzero (map cashCandidate (invoice_rows k rows))) \<and>
   (map_of (fst (aggregate rows)) k = Some i \<and>
    map_of (fst (aggregate (rows @ later))) k = Some i' \<longrightarrow>
      (truthy_num (netInvoice i) \<longrightarrow> netInvoice i' = netInvoice i) \<and>
      (truthy_num (amountRealised i) \<longrightarrow> amountRealised i' = amountRealised i) \<and>
      (truthy_num (invoiceValue i) \<longrightarrow> invoiceValue i' = invoiceValue i) \<and>
      (truthy_num (ccCharges i) \<longrightarrow> ccCharges i' = ccCharges i) \<and>
      (truthy_num (negRoundOff i) \<longrightarrow> negRoundOff i' = negRoundOff i) \<and>
      (truthy_num (posRoundOff i) \<longrightarrow> posRoundOff i' = posRoundOff i) \<and>
      (truthy_num (cashDiscount i) \<longrightarrow> cashDiscount i' = cashDiscount i))"
proof (intro conjI impI)
  assume "map_of (fst (aggregate rows)) k = Some i"
  then obtain r0 rs where rs: "invoice_rows k rows = r0 # rs"
    and i: "i = foldl absorb (push_item r0 (new_invoice k r0)) rs"
    by (auto simp: aggregate_lookup split: list.splits)
  let ?i0 = "push_item r0 (new_invoice k r0)"
  show "netInvoice i = first_nonzero (map netInvCandidate (invoice_rows k rows))"
    unfolding i rs
    by (rule first_of_created [of netInvoice netInvCandidate, OF absorb_netInvoice])
       (simp_all add: push_item_def new_invoice_def netInvCandidate_def num_falsy)
  show "amountRealised i = first_nonzero (map amtRealCandidate (invoice_rows k rows))"
    unfolding i rs
    by (rule first_of_created [of amountRealised amtRealCandidate, OF absorb_amountRealised])
       (simp_all add: push_item_def new_invoice_def amtRealCandidate_def num_falsy)
  show "invoiceValue i = first_nonzero (map invValueCandidate (invoice_rows k rows))"
    unfolding i rs
    by (rule first_of_created [of invoiceValue invValueCandidate, OF absorb_invoiceValue])
       (simp_all add: push_item_def new_invoice_def invValueCandidate_def num_falsy)
  show "ccCharges i = first_nonzero (map ccCandidate (invoice_rows k rows))"
    unfolding i rs
    by (rule first_of_created [of ccCharges ccCandidate, OF absorb_ccCharges])
       (simp_all add: push_item_def new_invoice_def ccCandidate_def num_falsy)
  show "negRoundOff i = first_nonzero (map negCandidate (invoice_rows k rows))"
    unfolding i rs
    by (rule first_of_created [of negRoundOff negCandidate, OF absorb_negRoundOff])
       (simp_all add: push_item_def new_invoice_def negCandidate_def num_falsy)
  show "posRoundOff i = first_nonzero (map posCandidate (invoice_rows k rows))"
    unfolding i rs
    by (rule first_of_created [of posRoundOff posCandidate, OF absorb_posRoundOff])
       (simp_all add: push_item_def new_invoice_def posCandidate_def num_falsy)
  show "cashDiscount i = first_nonzero (map cashCandidate (invoice_rows k rows))"
    unfolding i rs
    by (rule first_of_created [of cashDiscount cashCandidate, OF absorb_cashDiscount])
       (simp_all add: push_item_def new_invoice_def cashCandidate_def num_falsy)
next
  assume "map_of (fst (aggregate rows)) k = Some i \<and>
    map_of (fst (aggregate (rows @ later))) k = Some i'"
  then obtain xs where x: "i' = foldl absorb i xs" using aggregate_later by blast
  { assume "truthy_num (netInvoice i)"
    then show "netInvoice i' = netInvoice i"
      unfolding x by (rule keep_truthy [of netInvoice netInvCandidate, OF absorb_netInvoice]) }
  { assume "truthy_num (amountRealised i)"
    then show "amountRealised i' = amountRealised i"
      unfolding x by (rule keep_truthy [of amountRealised amtRealCandidate, OF absorb_amountRealised]) }
  { assume "truthy_num (invoiceValue i)"
    then show "invoiceValue i' = invoiceValue i"
      unfolding x by (rule keep_truthy [of invoiceValue invValueCandidate, OF absorb_invoiceValue]) }
  { assume "truthy_num (ccCharges i)"
    then show "ccCharges i' = ccCharges i"
      unfolding x by (rule keep_truthy [of ccCharges ccCandidate, OF absorb_ccCharges]) }
  { assume "truthy_num (negRoundOff i)"
    then show "negRoundOff i' = negRoundOff i"
      unfolding x by (rule keep_truthy [of negRoundOff negCandidate, OF absorb_negRoundOff]) }
  { assume "truthy_num (posRoundOff i)"
    then show "posRoundOff i' = posRoundOff i"
      unfolding x by (rule keep_truthy [of posRoundOff posCandidate, OF absorb_posRoundOff]) }
  { assume "truthy_num (cashDiscount i)"
    then show "cashDiscount i' = cashDiscount i"
      unfolding x by (rule keep_truthy [of cashDiscount cashCandidate, OF absorb_cashDiscount]) }
qed

theorem first_nonzero_wins_witness:
  "netInvoice (the (map_of (fst (aggregate
      [(\<lambda>_. JUndefined)(''Invoice No.'' := JStr ''INV1'', ''Net Invoice'' := JStr ''0''),
       (\<lambda>_. JUndefined)(''Net Inv'' := JStr ''500''),
       (\<lambda>_. JUndefined)(''Invoice No.'' := JStr ''inv1*'', ''Net Invoice'' := JStr ''700'')]))
      ''INV1'')) = Fin 500
   \<and> netInvoice (the (map_of (fst (aggregate
      ([(\<lambda>_. JUndefined)(''Invoice No.'' := JStr ''INV1'', ''Net Invoice'' := JStr ''0''),
        (\<lambda>_. JUndefined)(''Net Inv'' := JStr ''500'')]
       @ [(\<lambda>_. JUndefined)(''Invoice No.'' := JStr ''inv1*'', ''Net Invoice'' := JStr ''700'')])))
      ''INV1''))
     = netInvoice (the (map_of (fst (aggregate
      [(\<lambda>_. JUndefined)(''Invoice No.'' := JStr ''INV1'', ''Net Invoice'' := JStr ''0''),
       (\<lambda>_. JUndefined)(''Net Inv'' := JStr ''500'')]))
      ''INV1''))"
proof -
  let ?r1 = "(\<lambda>_. JUndefined)(''Invoice No.'' := JStr ''INV1'', ''Net Invoice'' := JStr ''0'')"
  let ?r2 = "(\<lambda>_. JUndefined)(''Net Inv'' := JStr ''500'')"
  let ?r3 = "(\<lambda>_. JUndefined)(''Invoice No.'' := JStr ''inv1*'', ''Net Invoice'' := JStr ''700'')"
  have "map_of (fst (aggregate [?r1, ?r2, ?r3])) ''INV1'' \<noteq> None" by code_simp
  then obtain i3 where i3: "map_of (fst (aggregate [?r1, ?r2, ?r3])) ''INV1'' = Some i3" by blast
  have "map_of (fst (aggregate [?r1, ?r2])) ''INV1'' \<noteq> None" by code_simp
  then obtain i2 where i2: "map_of (fst (aggregate [?r1, ?r2])) ''INV1'' = Some i2" by blast
  have f: "first_nonzero (map netInvCandidate (invoice_rows ''INV1'' [?r1, ?r2, ?r3])) = Fin 500"
    by code_simp
  have t: "truthy_num (netInvoice (the (map_of (fst (aggregate [?r1, ?r2])) ''INV1'')))"
    by code_simp
  from first_nonzero_wins [of "[?r1, ?r2, ?r3]" "''INV1''" i3] i3 f
  have 1: "netInvoice i3 = Fin 500" by simp
  from i3 have i3': "map_of (fst (aggregate ([?r1, ?r2] @ [?r3]))) ''INV1'' = Some i3" by simp
  from t i2 have "truthy_num (netInvoice i2)" by simp
  with first_nonzero_wins [of "[?r1, ?r2]" "''INV1''" i2 "[?r3]" i3] i2 i3'
  have 2: "netInvoice i3 = netInvoice i2" by blast
  from 1 2 i2 i3 i3' show ?thesis by simp
qed

subsection \<open>C8: reading a number from a cell\<close>

text \<open>
  The helpers of the reader of numbers agree with the words of the language definition:
  the digits, their values, the value of a run of digits and the powers of ten.
\<close>

lemma is_digit_decimal: "is_digit c = decimal_digit c"
proof -
  have "\<forall>c::char. is_digit c = decimal_digit c" by code_simp
  then show ?thesis ..
qed

lemma hex_val_digit_of: "hex_val c = digit_of c"
proof -
  have "\<forall>c::char. hex_val c = digit_of c" by code_simp
  then show ?thesis ..
qed

lemma decimal_digit_of: "decimal_digit c \<Longrightarrow> digit_of c \<noteq> None"
proof -
  have "\<forall>c::char. decimal_digit c \<longrightarrow> digit_of c \<noteq> None" by code_simp
  then show "decimal_digit c \<Longrightarrow> digit_of c \<noteq> None" by blast
qed

lemma is_base_digit_radix: "is_base_digit b = radix_digit b"
  by (rule ext) (simp add: is_base_digit_def radix_digit_def hex_val_digit_of)

lemma digits_value_snoc:
  "digits_value b (ds @ [c]) = digits_value b ds * b + (case digit_of c of None \<Rightarrow> 0 | Some d \<Rightarrow> d)"
  by (simp add: digits_value_def hex_val_digit_of)

lemma digits_value_numeral: "digits_value b ds = numeral_value b ds"
proof (induction ds rule: rev_induct)
  case Nil
  show ?case by (simp add: digits_value_def numeral_value_def)
next
  case (snoc c ds)
  then show ?case by (simp add: digits_value_snoc numeral_value_def mult.commute)
qed

lemma pow10_powi: "pow10 e = 10 powi e"
  by (simp add: pow10_def power_int_def field_simps)

lemma digit_char_facts:
  "is_digit c \<Longrightarrow> \<not> is_ws c"
  "is_digit c \<Longrightarrow> c \<noteq> CHR ''-'' \<and> c \<noteq> CHR ''+'' \<and> c \<noteq> CHR ''.'' \<and> c \<noteq> CHR ''I''
     \<and> c \<noteq> CHR ''e'' \<and> c \<noteq> CHR ''E''"
  "is_digit c \<Longrightarrow> radix_of c = 0"
proof -
  have "\<forall>c::char. is_digit c \<longrightarrow> \<not> is_ws c \<and> radix_of c = 0 \<and>
          c \<noteq> CHR ''-'' \<and> c \<noteq> CHR ''+'' \<and> c \<noteq> CHR ''.'' \<and> c \<noteq> CHR ''I''
          \<and> c \<noteq> CHR ''e'' \<and> c \<noteq> CHR ''E''"
    by code_simp
  then show "is_digit c \<Longrightarrow> \<not> is_ws c"
    "is_digit c \<Longrightarrow> c \<noteq> CHR ''-'' \<and> c \<noteq> CHR ''+'' \<and> c \<noteq> CHR ''.'' \<and> c \<noteq> CHR ''I''
     \<and> c \<noteq> CHR ''e'' \<and> c \<noteq> CHR ''E''"
    "is_digit c \<Longrightarrow> radix_of c = 0"
    by blast+
qed

lemma non_decimal_radix:
  "non_decimal s =
     (case s of
        z # x # ds \<Rightarrow>
          if z = CHR ''0'' \<and> radix_of x \<noteq> 0
          then Some (if ds \<noteq> [] \<and> list_all (radix_digit (radix_of x)) ds
                     then Fin (of_int (numeral_value (radix_of x) ds)) else NaN)
          else None
      | _ \<Rightarrow> None)"
  by (simp add: non_decimal_def radix_of_def is_base_digit_radix digits_value_numeral
        split: list.split)

lemma digits_then:
  assumes "list_all is_digit ds" "r = [] \<or> \<not> is_digit (hd r)"
  shows "takeWhile is_digit (ds @ r) = ds" "dropWhile is_digit (ds @ r) = r"
proof -
  from assms(2) have "takeWhile is_digit r = []" "dropWhile is_digit r = r"
    by (cases r; simp)+
  with assms(1) show "takeWhile is_digit (ds @ r) = ds" "dropWhile is_digit (ds @ r) = r"
    by (simp_all add: list_all_iff)
qed

lemma exponent_part_text:
  assumes "sign_text sg" "ds \<noteq> []" "list_all is_digit ds"
  shows "exponent_part (sg @ ds) =
           Some (if sg = ''-'' then - digits_value 10 ds else digits_value 10 ds)"
proof -
  from assms(2) obtain d r where ds: "ds = d # r" by (cases ds) auto
  with assms(3) have "is_digit d" by simp
  then have d: "d \<noteq> CHR ''-''" "d \<noteq> CHR ''+''" by (simp_all add: digit_char_facts)
  from assms(1) consider "sg = []" | "sg = ''+''" | "sg = ''-''" by (auto simp: sign_text_def)
  then show ?thesis
  proof cases
    case 1
    with d assms(3) show ?thesis by (simp add: exponent_part_def ds)
  next
    case 2
    with assms(2,3) show ?thesis by (simp add: exponent_part_def)
  next
    case 3
    with assms(2,3) show ?thesis by (simp add: exponent_part_def)
  qed
qed

lemma exponent_text_hd:
  assumes "exponent_ok ex"
  shows "exponent_text ex = [] \<or> (hd (exponent_text ex) = CHR ''e'' \<or> hd (exponent_text ex) = CHR ''E'')"
  using assms by (cases ex) auto

lemma exponent_tail:
  assumes "exponent_ok ex"
  shows "(case exponent_text ex of
            [] \<Rightarrow> Fin m
          | c # t \<Rightarrow> if c = CHR ''e'' \<or> c = CHR ''E''
                     then (case exponent_part t of None \<Rightarrow> NaN | Some e \<Rightarrow> Fin (m * pow10 e))
                     else NaN)
         = Fin (m * 10 powi exponent_value ex)"
proof (cases ex)
  case None
  then show ?thesis by simp
next
  case (Some p)
  then obtain c sg ds where p: "ex = Some (c, sg, ds)" by (cases p) auto
  with assms have ok: "c = CHR ''e'' \<or> c = CHR ''E''" "sign_text sg" "ds \<noteq> []"
    "list_all is_digit ds"
    by (simp_all add: is_digit_decimal list_all_iff)
  from ok(2-4) have "exponent_part (sg @ ds) =
      Some (if sg = ''-'' then - digits_value 10 ds else digits_value 10 ds)"
    by (rule exponent_part_text)
  with ok(1) show ?thesis by (auto simp add: p pow10_powi digits_value_numeral)
qed

lemma unsigned_decimal_parts:
  assumes ip: "list_all is_digit ip" and fp: "list_all is_digit fp"
    and ne: "ip \<noteq> [] \<or> fp \<noteq> []" and pt: "pt \<or> fp = []"
    and ex: "exponent_ok ex"
  shows "unsigned_decimal (ip @ (if pt then ''.'' else []) @ fp @ exponent_text ex) =
           Fin ((of_int (numeral_value 10 ip) + of_int (numeral_value 10 fp) / 10 ^ length fp)
                * 10 powi exponent_value ex)"
proof -
  let ?e = "exponent_text ex"
  let ?r = "(if pt then ''.'' else []) @ fp @ ?e"
  let ?m = "of_int (numeral_value 10 ip) + of_int (numeral_value 10 fp) / 10 ^ length fp :: rat"
  from ex have e: "?e = [] \<or> hd ?e = CHR ''e'' \<or> hd ?e = CHR ''E''"
    using exponent_text_hd by blast
  then have e1: "?e = [] \<or> \<not> is_digit (hd ?e)" using digit_char_facts(2) by blast
  from e have e2: "?e = [] \<or> hd ?e \<noteq> CHR ''.''" by auto
  from e1 pt have r: "?r = [] \<or> \<not> is_digit (hd ?r)"
    using digit_char_facts(2) [of "CHR ''.''"] by (cases pt) auto
  from ip r have tw: "takeWhile is_digit (ip @ ?r) = ip" and dw: "dropWhile is_digit (ip @ ?r) = ?r"
    by (rule digits_then)+
  from fp e1 have tf: "takeWhile is_digit (fp @ ?e) = fp" and df: "dropWhile is_digit (fp @ ?e) = ?e"
    by (rule digits_then)+
  have inf: "ip @ ?r \<noteq> ''Infinity''"
  proof (cases ip)
    case Nil
    with ne pt show ?thesis by auto
  next
    case (Cons d t)
    with ip have "is_digit d" by simp
    then have "d \<noteq> CHR ''I''" by (simp add: digit_char_facts)
    with Cons show ?thesis by auto
  qed
  have split: "(case ?r of c # t \<Rightarrow> if c = CHR ''.''
                                     then (takeWhile is_digit t, dropWhile is_digit t)
                                     else ([], ?r)
                | [] \<Rightarrow> ([], ?r)) = (fp, ?e)"
  proof (cases pt)
    case True
    then show ?thesis by (simp add: tf df)
  next
    case False
    with pt have "fp = []" by simp
    with False e2 show ?thesis by (cases ?e) auto
  qed
  have "unsigned_decimal (ip @ ?r) =
          (case ?e of
            [] \<Rightarrow> Fin ?m
          | c # t \<Rightarrow> if c = CHR ''e'' \<or> c = CHR ''E''
                     then (case exponent_part t of None \<Rightarrow> NaN | Some e \<Rightarrow> Fin (?m * pow10 e))
                     else NaN)"
  proof -
    from ne have ne': "(ip = [] \<and> fp = []) = False" by simp
    from inf have inf': "(ip @ ?r = ''Infinity'') = False" by simp
    show ?thesis
      by (simp only: unsigned_decimal_def Let_def tw dw split prod.case digits_value_numeral
            ne' inf' if_False)
  qed
  also from ex have "\<dots> = Fin (?m * 10 powi exponent_value ex)" by (rule exponent_tail)
  finally show ?thesis .
qed

text \<open>
  A numeric literal has no white space and no comma in it, so cleaning leaves it as it is.
\<close>

lemma mark_plain:
  "c \<in> set ''+-.eE0Infinity'' \<Longrightarrow> \<not> is_ws c \<and> c \<noteq> CHR '',''"
proof -
  have "\<forall>c \<in> set ''+-.eE0Infinity''. \<not> is_ws c \<and> c \<noteq> CHR '',''" by code_simp
  then show "c \<in> set ''+-.eE0Infinity'' \<Longrightarrow> \<not> is_ws c \<and> c \<noteq> CHR '',''" by blast
qed

lemma digit_plain: "digit_of c \<noteq> None \<Longrightarrow> \<not> is_ws c \<and> c \<noteq> CHR '',''"
proof -
  have "\<forall>c::char. digit_of c \<noteq> None \<longrightarrow> \<not> is_ws c \<and> c \<noteq> CHR '',''" by code_simp
  then show "digit_of c \<noteq> None \<Longrightarrow> \<not> is_ws c \<and> c \<noteq> CHR '',''" by blast
qed

lemma radix_plain: "radix_of x \<noteq> 0 \<Longrightarrow> \<not> is_ws x \<and> x \<noteq> CHR '',''"
proof -
  have "\<forall>x::char. radix_of x \<noteq> 0 \<longrightarrow> \<not> is_ws x \<and> x \<noteq> CHR '',''" by code_simp
  then show "radix_of x \<noteq> 0 \<Longrightarrow> \<not> is_ws x \<and> x \<noteq> CHR '',''" by blast
qed

lemma sign_plain:
  assumes "sign_text sg"
  shows "list_all (\<lambda>c. \<not> is_ws c \<and> c \<noteq> CHR '','') sg"
proof -
  from assms have "set sg \<subseteq> set ''+-.eE0Infinity''" by (auto simp: sign_text_def)
  then show ?thesis unfolding list_all_iff using mark_plain by blast
qed

lemma digits_plain:
  assumes "list_all decimal_digit ds"
  shows "list_all (\<lambda>c. \<not> is_ws c \<and> c \<noteq> CHR '','') ds"
  using assms decimal_digit_of digit_plain unfolding list_all_iff by blast

lemma exponent_text_plain:
  assumes "exponent_ok ex"
  shows "list_all (\<lambda>c. \<not> is_ws c \<and> c \<noteq> CHR '','') (exponent_text ex)"
proof (cases ex)
  case None
  then show ?thesis by simp
next
  case (Some p)
  then obtain e sg ds where p: "ex = Some (e, sg, ds)" by (cases p) auto
  with assms have e: "e \<in> set ''+-.eE0Infinity''"
    and sg: "sign_text sg" and ds: "list_all decimal_digit ds"
    by auto
  from mark_plain [OF e] sign_plain [OF sg] digits_plain [OF ds] show ?thesis
    by (simp add: p)
qed

lemma literal_text_plain:
  assumes "literal_ok l"
  shows "list_all (\<lambda>c. \<not> is_ws c \<and> c \<noteq> CHR '','') (literal_text l)"
proof (cases l)
  case (Decimal sg ip pt fp ex)
  with assms have ok: "sign_text sg" "list_all decimal_digit ip" "list_all decimal_digit fp"
    "exponent_ok ex" by simp_all
  have "list_all (\<lambda>c. \<not> is_ws c \<and> c \<noteq> CHR '','') (if pt then ''.'' else [])"
    using mark_plain [of "CHR ''.''"] by simp
  with sign_plain [OF ok(1)] digits_plain [OF ok(2)] digits_plain [OF ok(3)]
    exponent_text_plain [OF ok(4)]
  show ?thesis unfolding Decimal literal_text.simps list_all_append by blast
next
  case (Infinite sg)
  with assms have "sign_text sg" by simp
  moreover have "list_all (\<lambda>c. \<not> is_ws c \<and> c \<noteq> CHR '','') ''Infinity''"
    unfolding list_all_iff using mark_plain by auto
  ultimately show ?thesis
    using sign_plain unfolding Infinite literal_text.simps list_all_append by blast
next
  case (Radix x ds)
  with assms have x: "radix_of x \<noteq> 0" and ds: "list_all (radix_digit (radix_of x)) ds"
    by simp_all
  have "radix_digit b c \<Longrightarrow> \<not> is_ws c \<and> c \<noteq> CHR '',''" for b c
    using digit_plain [of c] by (cases "digit_of c") (simp_all add: radix_digit_def)
  with ds have "list_all (\<lambda>c. \<not> is_ws c \<and> c \<noteq> CHR '','') ds"
    unfolding list_all_iff by blast
  with radix_plain [OF x] mark_plain [of "CHR ''0''"] show ?thesis by (simp add: Radix)
qed

lemma literal_text_nonempty: "literal_ok l \<Longrightarrow> literal_text l \<noteq> []"
  by (cases l) auto

lemma literal_text_trim:
  assumes "literal_ok l"
  shows "trim (literal_text l) = literal_text l"
proof -
  from assms have ne: "literal_text l \<noteq> []" by (rule literal_text_nonempty)
  then have "hd (literal_text l) \<in> set (literal_text l)" "last (literal_text l) \<in> set (literal_text l)"
    by simp_all
  with literal_text_plain [OF assms]
  have "\<not> is_ws (hd (literal_text l))" "\<not> is_ws (last (literal_text l))"
    unfolding list_all_iff by blast+
  with ne show ?thesis by (rule trim_fixed)
qed

lemma literal_text_cleaned:
  assumes "literal_ok l"
  shows "trim (strip_commas (literal_text l)) = literal_text l"
proof -
  from literal_text_plain [OF assms] have "strip_commas (literal_text l) = literal_text l"
    unfolding strip_commas_def list_all_iff by (intro filter_True) blast
  with literal_text_trim [OF assms] show ?thesis by simp
qed

lemma literal_value_not_NaN: "literal_value l \<noteq> NaN"
  by (cases l) (simp_all add: Let_def)

text \<open>\<^verbatim>\<open>Number\<close> gives every numeric literal its value.\<close>

lemma decimal_digits: "list_all decimal_digit ds = list_all is_digit ds"
  by (simp add: list_all_iff is_digit_decimal)

lemma radix_of_marks:
  "radix_of (CHR ''.'') = 0" "radix_of (CHR ''e'') = 0" "radix_of (CHR ''E'') = 0"
  by (simp_all add: radix_of_def)

lemma non_decimal_unsigned:
  assumes ip: "list_all is_digit ip" and fp: "list_all is_digit fp"
    and pt: "pt \<or> fp = []" and ex: "exponent_ok ex"
  shows "non_decimal (ip @ (if pt then ''.'' else []) @ fp @ exponent_text ex) = None"
proof -
  let ?r = "(if pt then ''.'' else []) @ fp @ exponent_text ex"
  from ex have "exponent_text ex = [] \<or> radix_of (hd (exponent_text ex)) = 0"
    using exponent_text_hd [of ex] radix_of_marks by auto
  with pt have r: "?r = [] \<or> radix_of (hd ?r) = 0 \<and> hd ?r \<noteq> CHR ''0''"
    using radix_of_marks(1) exponent_text_hd [OF ex] by (cases pt) auto
  show ?thesis
  proof (cases ip)
    case Nil
    with r show ?thesis by (cases ?r) (auto simp: non_decimal_radix split: list.splits)
  next
    case a: (Cons d t)
    show ?thesis
    proof (cases t)
      case Nil
      with a r show ?thesis by (cases ?r) (auto simp: non_decimal_radix)
    next
      case (Cons d' t')
      with a ip have "is_digit d'" by simp
      then have "radix_of d' = 0" by (rule digit_char_facts(3))
      with a Cons show ?thesis by (simp add: non_decimal_radix)
    qed
  qed
qed

lemma unsigned_hd:
  assumes ip: "list_all is_digit ip" and fp: "list_all is_digit fp"
    and ne: "ip \<noteq> [] \<or> fp \<noteq> []" and pt: "pt \<or> fp = []"
  shows "\<exists>c t. ip @ (if pt then ''.'' else []) @ fp @ r = c # t \<and> c \<noteq> CHR ''-'' \<and> c \<noteq> CHR ''+''"
proof (cases ip)
  case Nil
  with ne pt show ?thesis by auto
next
  case (Cons d t)
  with ip have "is_digit d" by simp
  then have "d \<noteq> CHR ''-'' \<and> d \<noteq> CHR ''+''" using digit_char_facts(2) by blast
  with Cons show ?thesis by simp
qed

lemma Number_of_text_start:
  assumes "trim (c # r) = c # r"
  shows "Number_of_text (c # r) =
           (case non_decimal (c # r) of
              Some v \<Rightarrow> v
            | None \<Rightarrow> if c = CHR ''-'' then js_neg (unsigned_decimal r)
                       else if c = CHR ''+'' then unsigned_decimal r
                       else unsigned_decimal (c # r))"
  using assms by (simp add: Number_of_text_def Let_def split: option.split)

lemma non_decimal_signed:
  "c \<noteq> CHR ''0'' \<Longrightarrow> non_decimal (c # r) = None"
  by (simp add: non_decimal_radix split: list.split)

lemma literal_sound:
  assumes ok: "literal_ok l"
  shows "Number_of_text (literal_text l) = literal_value l"
proof -
  from ok have tr: "trim (literal_text l) = literal_text l" by (rule literal_text_trim)
  show ?thesis
  proof (cases l)
    case (Radix x ds)
    with ok tr show ?thesis
      by (simp add: Number_of_text_start [OF tr [unfolded Radix literal_text.simps]]
            non_decimal_radix)
  next
    case (Infinite sg)
    with ok consider "sg = []" | "sg = ''+''" | "sg = ''-''" by (auto simp: sign_text_def)
    then show ?thesis
    proof cases
      case 1
      have "Number_of_text ''Infinity'' = PInf" by code_simp
      with 1 Infinite show ?thesis by simp
    next
      case 2
      have "Number_of_text ''+Infinity'' = PInf" by code_simp
      with 2 Infinite show ?thesis by simp
    next
      case 3
      have "Number_of_text ''-Infinity'' = NInf" by code_simp
      with 3 Infinite show ?thesis by simp
    qed
  next
    case (Decimal sg ip pt fp ex)
    let ?u = "ip @ (if pt then ''.'' else []) @ fp @ exponent_text ex"
    let ?m = "(of_int (numeral_value 10 ip) + of_int (numeral_value 10 fp) / 10 ^ length fp)
                * 10 powi exponent_value ex :: rat"
    from ok Decimal have p: "sign_text sg" "list_all is_digit ip" "list_all is_digit fp"
      "ip \<noteq> [] \<or> fp \<noteq> []" "pt \<or> fp = []" "exponent_ok ex"
      by (simp_all add: decimal_digits)
    from p(2-6) have u: "unsigned_decimal ?u = Fin ?m" by (rule unsigned_decimal_parts)
    from p(2,3,5,6) have nd: "non_decimal ?u = None" by (rule non_decimal_unsigned)
    from p(2-5) obtain c t where ct: "?u = c # t" "c \<noteq> CHR ''-''" "c \<noteq> CHR ''+''"
      using unsigned_hd [of ip fp pt "exponent_text ex"] by blast
    from tr Decimal have tr': "trim (sg @ ?u) = sg @ ?u" by simp
    from p(1) consider "sg = []" | "sg = ''+''" | "sg = ''-''" by (auto simp: sign_text_def)
    then have "Number_of_text (sg @ ?u) = Fin (if sg = ''-'' then - ?m else ?m)"
    proof cases
      case 1
      with tr' ct(1) have "trim (c # t) = c # t" by simp
      from Number_of_text_start [OF this] nd ct u 1 show ?thesis by simp
    next
      case 2
      with tr' have "trim (CHR ''+'' # ?u) = CHR ''+'' # ?u" by simp
      from Number_of_text_start [OF this] u 2 show ?thesis
        by (simp add: non_decimal_signed)
    next
      case 3
      with tr' have "trim (CHR ''-'' # ?u) = CHR ''-'' # ?u" by simp
      from Number_of_text_start [OF this] u 3 show ?thesis
        by (simp add: non_decimal_signed)
    qed
    with Decimal show ?thesis by (simp add: Let_def)
  qed
qed

text \<open>
  Conversely, a text without white space around it that \<^verbatim>\<open>Number\<close> does not read as
  \<open>NaN\<close> is empty or a numeric literal.
\<close>

lemma exponent_part_complete:
  assumes "exponent_part t = Some e"
  shows "\<exists>sg ds. sign_text sg \<and> ds \<noteq> [] \<and> list_all is_digit ds \<and> t = sg @ ds"
proof (cases t)
  case Nil
  with assms show ?thesis by (simp add: exponent_part_def)
next
  case (Cons c r)
  consider "c = CHR ''-''" | "c = CHR ''+''" | "c \<noteq> CHR ''-''" "c \<noteq> CHR ''+''" by blast
  then show ?thesis
  proof cases
    case 1
    with assms Cons have "r \<noteq> [] \<and> list_all is_digit r"
      by (simp add: exponent_part_def split: if_splits)
    with 1 Cons have "sign_text ''-'' \<and> r \<noteq> [] \<and> list_all is_digit r \<and> t = ''-'' @ r"
      by (simp add: sign_text_def)
    then show ?thesis by blast
  next
    case 2
    with assms Cons have "r \<noteq> [] \<and> list_all is_digit r"
      by (simp add: exponent_part_def split: if_splits)
    with 2 Cons have "sign_text ''+'' \<and> r \<noteq> [] \<and> list_all is_digit r \<and> t = ''+'' @ r"
      by (simp add: sign_text_def)
    then show ?thesis by blast
  next
    case 3
    with assms Cons have "list_all is_digit t"
      by (simp add: exponent_part_def split: if_splits)
    with Cons have "sign_text [] \<and> t \<noteq> [] \<and> list_all is_digit t \<and> t = [] @ t"
      by (simp add: sign_text_def)
    then show ?thesis by blast
  qed
qed

lemma exponent_complete:
  assumes "(case r of
              [] \<Rightarrow> Fin m
            | c # t \<Rightarrow> if c = CHR ''e'' \<or> c = CHR ''E''
                       then (case exponent_part t of None \<Rightarrow> NaN | Some e \<Rightarrow> Fin (m * pow10 e))
                       else NaN) \<noteq> NaN"
  shows "\<exists>ex. exponent_ok ex \<and> exponent_text ex = r"
proof (cases r)
  case Nil
  have "exponent_ok None \<and> exponent_text None = []" by simp
  with Nil show ?thesis by blast
next
  case (Cons c t)
  with assms have c: "c = CHR ''e'' \<or> c = CHR ''E''" and "exponent_part t \<noteq> None"
    by (auto split: if_splits option.splits)
  then obtain e where "exponent_part t = Some e" by blast
  then obtain sg ds where "sign_text sg" "ds \<noteq> []" "list_all is_digit ds" "t = sg @ ds"
    using exponent_part_complete by blast
  with c Cons have "exponent_ok (Some (c, sg, ds)) \<and> exponent_text (Some (c, sg, ds)) = r"
    by (simp add: decimal_digits)
  then show ?thesis by blast
qed

lemma unsigned_decimal_complete:
  assumes nn: "unsigned_decimal u \<noteq> NaN" and inf: "u \<noteq> ''Infinity''"
  shows "\<exists>ip pt fp ex. literal_ok (Decimal [] ip pt fp ex)
           \<and> literal_text (Decimal [] ip pt fp ex) = u"
proof -
  let ?ip = "takeWhile is_digit u"
  let ?r1 = "dropWhile is_digit u"
  define pt where "pt = (?r1 \<noteq> [] \<and> hd ?r1 = CHR ''.'')"
  define fp where "fp = (if pt then takeWhile is_digit (tl ?r1) else [])"
  define r2 where "r2 = (if pt then dropWhile is_digit (tl ?r1) else ?r1)"
  let ?m = "of_int (digits_value 10 ?ip) + of_int (digits_value 10 fp) / 10 ^ length fp :: rat"
  have split: "(case ?r1 of c # t \<Rightarrow> if c = CHR ''.''
                                     then (takeWhile is_digit t, dropWhile is_digit t)
                                     else ([], ?r1)
                | [] \<Rightarrow> ([], ?r1)) = (fp, r2)"
    by (cases ?r1) (simp_all add: pt_def fp_def r2_def del: dropWhile_eq_Nil_conv)
  from inf have inf': "(u = ''Infinity'') = False" by simp
  have ud: "unsigned_decimal u =
          (if ?ip = [] \<and> fp = [] then NaN
           else (case r2 of
            [] \<Rightarrow> Fin ?m
          | c # t \<Rightarrow> if c = CHR ''e'' \<or> c = CHR ''E''
                     then (case exponent_part t of None \<Rightarrow> NaN | Some e \<Rightarrow> Fin (?m * pow10 e))
                     else NaN))"
    by (simp only: unsigned_decimal_def Let_def split prod.case inf' if_False)
  with nn have ne: "?ip \<noteq> [] \<or> fp \<noteq> []" by (auto split: if_splits)
  with ud nn obtain ex where ex: "exponent_ok ex" "exponent_text ex = r2"
    using exponent_complete [where r = r2 and m = "?m"] by (auto split: if_splits)
  have r1: "?r1 = (if pt then ''.'' else []) @ fp @ r2"
  proof (cases pt)
    case True
    then have "?r1 \<noteq> []" "hd ?r1 = CHR ''.''" unfolding pt_def by blast+
    then have "?r1 = CHR ''.'' # tl ?r1" by (metis list.collapse)
    with True show ?thesis by (simp add: fp_def r2_def del: dropWhile_eq_Nil_conv)
  next
    case False
    then show ?thesis by (simp add: fp_def r2_def)
  qed
  have "u = ?ip @ ?r1" by simp
  with r1 ex have u: "u = ?ip @ (if pt then ''.'' else []) @ fp @ exponent_text ex" by simp
  have "list_all is_digit ?ip" by (simp add: list_all_iff) (meson set_takeWhileD)
  moreover have "list_all is_digit fp"
    by (simp add: fp_def list_all_iff) (meson set_takeWhileD)
  moreover have "pt \<or> fp = []" by (simp add: fp_def)
  ultimately have "literal_ok (Decimal [] ?ip pt fp ex)"
    using ne ex by (simp add: decimal_digits sign_text_def)
  moreover from u have "literal_text (Decimal [] ?ip pt fp ex) = u" by simp
  ultimately show ?thesis by blast
qed

lemma signed_literal:
  assumes "literal_ok (Decimal [] ip pt fp ex)" "sign_text sg"
  shows "literal_ok (Decimal sg ip pt fp ex)"
    "literal_text (Decimal sg ip pt fp ex) = sg @ literal_text (Decimal [] ip pt fp ex)"
  using assms by simp_all

lemma unsigned_complete:
  assumes "unsigned_decimal u \<noteq> NaN" "sign_text sg"
  shows "\<exists>l. literal_ok l \<and> literal_text l = sg @ u"
proof (cases "u = ''Infinity''")
  case True
  with assms(2) have "literal_ok (Infinite sg) \<and> literal_text (Infinite sg) = sg @ u" by simp
  then show ?thesis by blast
next
  case False
  with assms(1) obtain ip pt fp ex where "literal_ok (Decimal [] ip pt fp ex)"
    "literal_text (Decimal [] ip pt fp ex) = u"
    using unsigned_decimal_complete by blast
  with assms(2) have "literal_ok (Decimal sg ip pt fp ex) \<and>
    literal_text (Decimal sg ip pt fp ex) = sg @ u"
    by simp
  then show ?thesis by blast
qed

lemma js_neg_NaN: "js_neg x = NaN \<longleftrightarrow> x = NaN"
  by (cases x) simp_all

lemma literal_complete:
  assumes tr: "trim t = t" and ne: "t \<noteq> []" and nn: "Number_of_text t \<noteq> NaN"
  shows "\<exists>l. literal_ok l \<and> literal_text l = t"
proof -
  from ne obtain c r where t: "t = c # r" by (cases t) auto
  with tr have "trim (c # r) = c # r" by simp
  note N = Number_of_text_start [OF this]
  show ?thesis
  proof (cases "non_decimal t")
    case (Some v)
    with N t nn have v: "v \<noteq> NaN" by simp
    from Some obtain x ds where s: "t = CHR ''0'' # x # ds" "radix_of x \<noteq> 0"
      "v = (if ds \<noteq> [] \<and> list_all (radix_digit (radix_of x)) ds
            then Fin (of_int (numeral_value (radix_of x) ds)) else NaN)"
      by (auto simp: non_decimal_radix split: list.splits if_splits)
    with v have "ds \<noteq> [] \<and> list_all (radix_digit (radix_of x)) ds" by (auto split: if_splits)
    with s have "literal_ok (Radix x ds) \<and> literal_text (Radix x ds) = t" by simp
    then show ?thesis by blast
  next
    case None
    consider "c = CHR ''-''" | "c = CHR ''+''" | "c \<noteq> CHR ''-''" "c \<noteq> CHR ''+''" by blast
    then show ?thesis
    proof cases
      case 1
      with N None t nn have "unsigned_decimal r \<noteq> NaN" by (simp add: js_neg_NaN)
      then have "\<exists>l. literal_ok l \<and> literal_text l = ''-'' @ r"
        by (rule unsigned_complete) (simp add: sign_text_def)
      with 1 t show ?thesis by simp
    next
      case 2
      with N None t nn have "unsigned_decimal r \<noteq> NaN" by simp
      then have "\<exists>l. literal_ok l \<and> literal_text l = ''+'' @ r"
        by (rule unsigned_complete) (simp add: sign_text_def)
      with 2 t show ?thesis by simp
    next
      case 3
      with N None t nn have "unsigned_decimal t \<noteq> NaN" by simp
      then have "\<exists>l. literal_ok l \<and> literal_text l = [] @ t"
        by (rule unsigned_complete) (simp add: sign_text_def)
      then show ?thesis by simp
    qed
  qed
qed

text \<open>Decimal texts, as the specification describes them.\<close>

lemma not_digit: "\<not> is_digit (CHR ''I'')" "\<not> is_digit (CHR ''.'')"
  "\<not> is_digit (CHR ''-'')" "\<not> is_digit (CHR ''+'')"
  "\<not> is_digit (CHR ''x'')" "\<not> is_digit (CHR ''X'')" "\<not> is_digit (CHR ''o'')"
  "\<not> is_digit (CHR ''O'')" "\<not> is_digit (CHR ''b'')" "\<not> is_digit (CHR ''B'')"
  by (simp_all add: is_digit_def)

lemma unsigned_decimal_plain:
  assumes ip: "takeWhile is_digit t \<noteq> []"
    and rest: "dropWhile is_digit t = [] \<or>
               (hd (dropWhile is_digit t) = CHR ''.'' \<and> tl (dropWhile is_digit t) \<noteq> []
                \<and> list_all is_digit (tl (dropWhile is_digit t)))"
  shows "unsigned_decimal t =
           Fin (of_int (digits_value 10 (takeWhile is_digit t))
                + of_int (digits_value 10 (fraction_part t)) / 10 ^ length (fraction_part t))"
proof -
  from ip have inf: "t \<noteq> ''Infinity''" by (auto simp: not_digit)
  show ?thesis
  proof (cases "dropWhile is_digit t")
    case Nil
    with ip inf show ?thesis
      by (simp add: unsigned_decimal_def fraction_part_def Let_def Nil
            del: dropWhile_eq_Nil_conv)
  next
    case (Cons c f)
    with rest have c: "c = CHR ''.''" and f: "f \<noteq> []" "list_all is_digit f" by simp_all
    from f have tw: "takeWhile is_digit f = f" and dw: "dropWhile is_digit f = []"
      by (simp_all add: list_all_iff)
    from ip inf c f show ?thesis
      by (simp add: unsigned_decimal_def fraction_part_def Let_def Cons tw dw
            del: dropWhile_eq_Nil_conv)
  qed
qed

lemma non_decimal_plain:
  assumes "is_decimal_text s"
  shows "non_decimal s = None"
proof (cases s)
  case Nil
  then show ?thesis by (simp add: non_decimal_def)
next
  case (Cons z r)
  show ?thesis
  proof (cases r)
    case Nil
    with Cons show ?thesis by (simp add: non_decimal_def)
  next
    case (Cons x ds)
    show ?thesis
    proof (cases "z = CHR ''0''")
      case False
      with \<open>s = z # r\<close> Cons show ?thesis by (simp add: non_decimal_def)
    next
      case True
      have z: "is_digit (CHR ''0'')" by (simp add: is_digit_def)
      from True \<open>s = z # r\<close> Cons have s: "s = CHR ''0'' # x # ds" by simp
      then have u: "unsigned_part s = s" by (simp add: unsigned_part_def)
      have "x \<notin> {CHR ''x'', CHR ''X'', CHR ''o'', CHR ''O'', CHR ''b'', CHR ''B''}"
      proof
        assume x: "x \<in> {CHR ''x'', CHR ''X'', CHR ''o'', CHR ''O'', CHR ''b'', CHR ''B''}"
        then have nd: "\<not> is_digit x" by (auto simp: not_digit)
        with s z have dw: "dropWhile is_digit s = x # ds" by simp
        from assms have "x = CHR ''.''"
          by (simp add: is_decimal_text_def Let_def u dw del: dropWhile_eq_Nil_conv)
        with x show False by simp
      qed
      with s show ?thesis by (simp add: non_decimal_def Let_def)
    qed
  qed
qed

lemma Number_of_decimal_text:
  assumes d: "is_decimal_text s" and t: "trim s = s"
  shows "Number_of_text s = Fin (decimal_value s)"
proof -
  from d have ne: "s \<noteq> []" by (auto simp: is_decimal_text_def unsigned_part_def)
  then obtain c r where s: "s = c # r" by (cases s) auto
  from d have nd: "non_decimal s = None" by (rule non_decimal_plain)
  let ?t = "unsigned_part s"
  from d have u: "unsigned_decimal ?t =
           Fin (of_int (digits_value 10 (takeWhile is_digit ?t))
                + of_int (digits_value 10 (fraction_part ?t)) / 10 ^ length (fraction_part ?t))"
    by (intro unsigned_decimal_plain) (simp_all add: is_decimal_text_def Let_def)
  show ?thesis
  proof (cases "c = CHR ''-''")
    case True
    with s have "?t = r" by (simp add: unsigned_part_def)
    with u True s nd t show ?thesis
      by (simp add: Number_of_text_def decimal_value_def Let_def)
  next
    case False
    show ?thesis
    proof (cases "c = CHR ''+''")
      case True
      with s have "?t = r" by (simp add: unsigned_part_def)
      with u True s nd t show ?thesis
        by (simp add: Number_of_text_def decimal_value_def Let_def)
    next
      case p: False
      with False s have "?t = s" by (simp add: unsigned_part_def)
      with u False p s nd t show ?thesis
        by (simp add: Number_of_text_def decimal_value_def Let_def)
    qed
  qed
qed

lemma num_text:
  "num (JStr s) =
     (if Number_of_text (cell_text (JStr s)) = NaN then Fin 0
      else Number_of_text (cell_text (JStr s)))"
proof (cases "s = []")
  case True
  have "Number_of_text [] = Fin 0" by (simp add: Number_of_text_def trim_def)
  with True show ?thesis
    by (simp add: num_def cell_text_def strip_commas_def trim_def)
next
  case False
  then show ?thesis by (simp add: num_def cell_text_def isNaN_def Let_def)
qed

lemma trim_padded:
  assumes a: "list_all is_ws a" and b: "list_all is_ws b"
    and t: "t \<noteq> []" "\<not> is_ws (hd t)" "\<not> is_ws (last t)"
  shows "trim (a @ t @ b) = t"
proof -
  from t(1,2) have "dropWhile is_ws (t @ b) = t @ b" by (cases t) simp_all
  with a have front: "dropWhile is_ws (a @ t @ b) = t @ b" by (simp add: list_all_iff)
  from t(1,3) have "dropWhile is_ws (rev t) = rev t"
    by (cases t rule: rev_cases) simp_all
  moreover from b have "\<And>x. x \<in> set (rev b) \<Longrightarrow> is_ws x" by (simp add: list_all_iff)
  then have "dropWhile is_ws (rev b @ rev t) = dropWhile is_ws (rev t)"
    by (rule dropWhile_append2)
  ultimately have "dropWhile is_ws (rev b @ rev t) = rev t" by simp
  with front show ?thesis by (simp add: trim_def)
qed

lemma trim_blank:
  assumes "list_all is_ws w"
  shows "trim w = []"
proof -
  from assms have "dropWhile is_ws w = []" by (simp add: list_all_iff)
  then show ?thesis by (simp only: trim_def rev.simps dropWhile.simps)
qed

lemma cell_text_padded:
  assumes "list_all is_ws a" "list_all is_ws b"
    "t = [] \<or> (\<not> is_ws (hd t) \<and> \<not> is_ws (last t))"
    "strip_commas s = a @ t @ b"
  shows "cell_text (JStr s) = t"
proof (cases "t = []")
  case True
  with assms(1,2) have "list_all is_ws (a @ t @ b)" by simp
  then have "trim (a @ t @ b) = []" by (rule trim_blank)
  with True assms(4) show ?thesis by (simp add: cell_text_def)
next
  case False
  with assms(3) have "\<not> is_ws (hd t)" "\<not> is_ws (last t)" by blast+
  with assms(1,2) False have "trim (a @ t @ b) = t" by (rule trim_padded)
  with assms(4) show ?thesis by (simp add: cell_text_def)
qed

lemma cell_text_trim: "trim (cell_text v) = cell_text v"
  by (simp add: cell_text_def trim_trim)

text \<open>
  A number cell and its printed text. Where \<open>number_text\<close> prints a number in full,
  that is below \<open>10^22\<close> and with at most 20 decimal places, reading the cleaned text
  of the number gives the number back: on these numbers the step through the text is
  the identity that \<open>cleaned_Number\<close> takes it to be.
\<close>

lemma digit_char_digit:
  assumes "0 \<le> d" "d < 10"
  shows "decimal_digit (digit_char d)" "digit_of (digit_char d) = Some d"
proof -
  have "\<forall>d \<in> set [0..9]. decimal_digit (digit_char d) \<and> digit_of (digit_char d) = Some d"
    by code_simp
  moreover from assms have "d \<in> set [0..9]" by simp
  ultimately show "decimal_digit (digit_char d)" "digit_of (digit_char d) = Some d"
    by blast+
qed

lemma numeral_value_snoc:
  "numeral_value b (ds @ [c]) =
     (case digit_of c of None \<Rightarrow> 0 | Some d \<Rightarrow> d) + b * numeral_value b ds"
  by (simp add: numeral_value_def)

lemma units_first_append:
  "units_first b (xs @ ys) = units_first b xs + b ^ length xs * units_first b ys"
  by (induction xs) (simp_all add: algebra_simps)

lemma numeral_value_Cons:
  "numeral_value b (c # ds) =
     (case digit_of c of None \<Rightarrow> 0 | Some d \<Rightarrow> d) * b ^ length ds + numeral_value b ds"
  by (simp add: numeral_value_def units_first_append)

lemma int_digits_value:
  assumes "0 \<le> n" "n < 10 ^ f" "0 < f"
  shows "int_digits f n \<noteq> [] \<and> list_all decimal_digit (int_digits f n)
         \<and> numeral_value 10 (int_digits f n) = n"
  using assms
proof (induction f arbitrary: n)
  case 0
  then show ?case by simp
next
  case (Suc f)
  show ?case
  proof (cases "n < 10")
    case True
    with Suc.prems(1) show ?thesis
      by (simp add: digit_char_digit numeral_value_def)
  next
    case False
    from False Suc.prems(2) have f: "0 < f" by (cases f) simp_all
    from Suc.prems have "0 \<le> n div 10" "n div 10 < 10 ^ f" by simp_all
    from Suc.IH [OF this f] have ih: "list_all decimal_digit (int_digits f (n div 10))"
      "numeral_value 10 (int_digits f (n div 10)) = n div 10" by simp_all
    have "0 \<le> n mod 10" "n mod 10 < 10" by simp_all
    then have d: "decimal_digit (digit_char (n mod 10))"
      "digit_of (digit_char (n mod 10)) = Some (n mod 10)"
      by (rule digit_char_digit)+
    from False ih d show ?thesis by (simp add: numeral_value_snoc)
  qed
qed

lemma frac_digits_value:
  assumes "0 \<le> r" "r < 1" "r * 10 ^ f \<in> \<int>"
  shows "list_all decimal_digit (frac_digits f r)
         \<and> of_int (numeral_value 10 (frac_digits f r)) / 10 ^ length (frac_digits f r) = r"
  using assms
proof (induction f arbitrary: r)
  case 0
  then obtain k :: int where "r = of_int k" by (auto elim: Ints_cases)
  with 0 have "r = 0" by simp
  then show ?case by (simp add: numeral_value_def)
next
  case (Suc f)
  show ?case
  proof (cases "r = 0")
    case True
    then show ?thesis by (simp add: numeral_value_def)
  next
    case False
    let ?d = "\<lfloor>r * 10\<rfloor>"
    let ?r = "r * 10 - of_int ?d"
    from Suc.prems have d: "0 \<le> ?d" "?d < 10" by (simp_all add: floor_less_iff)
    have r: "0 \<le> ?r" "?r < 1" by linarith+
    have "?r * 10 ^ f = r * 10 ^ Suc f - of_int (?d * 10 ^ f)" by (simp add: algebra_simps)
    with Suc.prems(3) have "?r * 10 ^ f \<in> \<int>" by (metis Ints_diff Ints_of_int)
    from Suc.IH [OF r this] have ih: "list_all decimal_digit (frac_digits f ?r)"
      "of_int (numeral_value 10 (frac_digits f ?r)) / 10 ^ length (frac_digits f ?r) = ?r"
      by simp_all
    from d have c: "decimal_digit (digit_char ?d)" "digit_of (digit_char ?d) = Some ?d"
      by (rule digit_char_digit)+
    let ?t = "frac_digits f ?r"
    have "of_int (numeral_value 10 (digit_char ?d # ?t)) / 10 ^ length (digit_char ?d # ?t)
            = (of_int ?d + of_int (numeral_value 10 ?t) / 10 ^ length ?t) / (10 :: rat)"
      by (simp add: numeral_value_Cons c add_divide_distrib)
    also from ih(2) have "\<dots> = r" by simp
    finally show ?thesis using False ih(1) c(1) by (simp add: Let_def)
  qed
qed

lemma number_text_literal:
  assumes "\<bar>a\<bar> < 10 ^ 22" "a * 10 ^ 20 \<in> \<int>"
  shows "\<exists>l. literal_ok l \<and> literal_text l = number_text (Fin a) \<and> literal_value l = Fin a"
proof -
  let ?m = "\<bar>a\<bar>"
  let ?i = "\<lfloor>?m\<rfloor>"
  let ?f = "?m - of_int ?i"
  let ?sg = "if a < 0 then ''-'' else []"
  let ?ip = "int_digits 22 ?i"
  let ?fp = "if ?f = 0 then [] else frac_digits 20 ?f"
  let ?l = "Decimal ?sg ?ip (?f \<noteq> 0) ?fp None"
  from assms(1) have "0 \<le> ?i" "?i < 10 ^ 22" by (simp_all add: floor_less_iff)
  then have ip: "?ip \<noteq> []" "list_all decimal_digit ?ip" "numeral_value 10 ?ip = ?i"
    using int_digits_value [of ?i 22] by simp_all
  have f: "0 \<le> ?f" "?f < 1" by linarith+
  have "?m * 10 ^ 20 = \<bar>a * 10 ^ 20\<bar>" by (simp add: abs_mult)
  with assms(2) have "?m * 10 ^ 20 \<in> \<int>" by simp
  moreover have "?f * 10 ^ 20 = ?m * 10 ^ 20 - of_int (?i * 10 ^ 20)" by (simp add: algebra_simps)
  ultimately have "?f * 10 ^ 20 \<in> \<int>" by (metis Ints_diff Ints_of_int)
  from frac_digits_value [OF f this]
  have fd: "list_all decimal_digit (frac_digits 20 ?f)"
    "of_int (numeral_value 10 (frac_digits 20 ?f)) / 10 ^ length (frac_digits 20 ?f) = ?f"
    by simp_all
  then have fp: "list_all decimal_digit ?fp"
    "of_int (numeral_value 10 ?fp) / 10 ^ length ?fp = ?f"
    by (simp_all add: numeral_value_def)
  from ip fp(1) have "literal_ok ?l" by (simp add: sign_text_def)
  moreover have "literal_text ?l = number_text (Fin a)"
    by (simp add: number_text_def Let_def)
  moreover have "literal_value ?l = Fin a"
  proof -
    have "of_int (numeral_value 10 ?ip) + of_int (numeral_value 10 ?fp) / 10 ^ length ?fp = ?m"
      unfolding ip(3) fp(2) by simp
    then have "literal_value ?l = Fin (if a < 0 then - ?m else ?m)"
      by (simp only: literal_value.simps Let_def exponent_value.simps power_int_0_right
            mult_1_right) (simp split: if_splits)
    then show ?thesis by (simp add: abs_if)
  qed
  ultimately show ?thesis by blast
qed

lemma cleaned_Number_printed:
  assumes "\<And>a. x = Fin a \<Longrightarrow> \<bar>a\<bar> < 10 ^ 22 \<and> a * 10 ^ 20 \<in> \<int>"
  shows "Number_of_text (trim (strip_commas (to_String (JNum x)))) = cleaned_Number (JNum x)"
proof (cases x)
  case (Fin a)
  with assms obtain l where l: "literal_ok l" "literal_text l = number_text (Fin a)"
    "literal_value l = Fin a"
    using number_text_literal by blast
  from literal_text_cleaned [OF l(1)] literal_sound [OF l(1)] l(2,3) Fin show ?thesis by simp
next
  case PInf
  have "Number_of_text (trim (strip_commas (to_String (JNum PInf)))) = PInf" by code_simp
  with PInf show ?thesis by simp
next
  case NInf
  have "Number_of_text (trim (strip_commas (to_String (JNum NInf)))) = NInf" by code_simp
  with NInf show ?thesis by simp
next
  case NaN
  have "Number_of_text (trim (strip_commas (to_String (JNum NaN)))) = NaN" by code_simp
  with NaN show ?thesis by simp
qed

text \<open>
  C8, as the code has it. \<^verbatim>\<open>num\<close> is total and its result is never \<open>NaN\<close>. It is 0
  for \<^verbatim>\<open>undefined\<close>, \<^verbatim>\<open>null\<close> and the booleans; a number is returned as it is, and
  \<open>NaN\<close> as 0. Of a text it reads the cleaned text, which is the text without its commas
  and without the white space around it:
  \<^item> a blank cleaned text gives 0;
  \<^item> a cleaned text that is a numeric literal gives the value of the literal, so an
    exponent, the word \<^verbatim>\<open>Infinity\<close> and the integers that start with \<^verbatim>\<open>0x\<close>,
    \<^verbatim>\<open>0o\<close> or \<^verbatim>\<open>0b\<close> are read as well;
  \<^item> every other text gives 0;
  \<^item> a decimal text, as the specification describes it, gives its value;
  \<^item> the cleaned text is what stands between two runs of white space in the text
    without its commas, when that is empty or begins and ends with a character that is
    not white space.
\<close>

theorem num_total:
  "num v \<noteq> NaN \<and>
   num JUndefined = Fin 0 \<and> num JNull = Fin 0 \<and> num (JBool b) = Fin 0 \<and>
   num (JNum x) = (if x = NaN then Fin 0 else x) \<and>
   (cell_text (JStr s) = [] \<longrightarrow> num (JStr s) = Fin 0) \<and>
   (literal_ok l \<and> cell_text (JStr s) = literal_text l \<longrightarrow> num (JStr s) = literal_value l) \<and>
   (cell_text (JStr s) \<noteq> [] \<and> (\<forall>k. literal_ok k \<longrightarrow> literal_text k \<noteq> cell_text (JStr s))
      \<longrightarrow> num (JStr s) = Fin 0) \<and>
   (is_decimal_text (cell_text (JStr s)) \<longrightarrow>
      num (JStr s) = Fin (decimal_value (cell_text (JStr s)))) \<and>
   (list_all is_ws ws1 \<and> list_all is_ws ws2 \<and> (t = [] \<or> (\<not> is_ws (hd t) \<and> \<not> is_ws (last t)))
      \<and> strip_commas s = ws1 @ t @ ws2 \<longrightarrow> cell_text (JStr s) = t)"
proof (intro conjI impI)
  let ?t = "cell_text (JStr s)"
  have tr: "trim ?t = ?t" by (rule cell_text_trim)
  show "num v \<noteq> NaN" by (rule num_not_NaN)
  show "num JUndefined = Fin 0" "num JNull = Fin 0" by (simp_all add: num_def)
  have "Number_of_text ''true'' = NaN" "Number_of_text ''false'' = NaN" by code_simp+
  then show "num (JBool b) = Fin 0"
    by (simp add: num_def isNaN_def strip_commas_def trim_def is_ws_def)
  show "num (JNum x) = (if x = NaN then Fin 0 else x)" by (simp add: num_def isNaN_def)
  have e: "Number_of_text [] = Fin 0" by (simp add: Number_of_text_def trim_def)
  show "num (JStr s) = Fin 0" if "?t = []"
    using that e by (simp add: num_text)
  have lit: "num (JStr s) = literal_value l" if "literal_ok l" "?t = literal_text l"
  proof -
    from that have "Number_of_text ?t = literal_value l" by (simp add: literal_sound)
    then show ?thesis by (simp add: num_text literal_value_not_NaN)
  qed
  then show "num (JStr s) = literal_value l" if "literal_ok l \<and> ?t = literal_text l"
    using that by blast
  show "?t = t"
    if "list_all is_ws ws1 \<and> list_all is_ws ws2
        \<and> (t = [] \<or> (\<not> is_ws (hd t) \<and> \<not> is_ws (last t)))
        \<and> strip_commas s = ws1 @ t @ ws2"
    using that cell_text_padded [of ws1 ws2 t s] by blast
  show "num (JStr s) = Fin 0"
    if "?t \<noteq> [] \<and> (\<forall>k. literal_ok k \<longrightarrow> literal_text k \<noteq> ?t)"
  proof -
    from that tr have "Number_of_text ?t = NaN" using literal_complete [of ?t] by blast
    then show ?thesis by (simp add: num_text)
  qed
  show "num (JStr s) = Fin (decimal_value ?t)" if d: "is_decimal_text ?t"
  proof -
    from d tr have "Number_of_text ?t = Fin (decimal_value ?t)"
      by (rule Number_of_decimal_text)
    then show ?thesis by (simp add: num_text)
  qed
qed

theorem num_total_witness:
  "num (JStr ''  '') = Fin 0 \<and>
   num (JStr '' 1,234.50 '') = Fin (2469 / 2) \<and>
   num (JStr ''-1.5e-3'') = Fin (- 3 / 2000) \<and>
   num (JStr ''0x10'') = Fin 16 \<and>
   num (JStr ''0o17'') = Fin 15 \<and>
   num (JStr ''0b101'') = Fin 5 \<and>
   num (JStr ''-Infinity'') = NInf \<and>
   num (JStr ''12 apples'') = Fin 0 \<and>
   num (JStr ''1,2,3 '') = Fin 123 \<and>
   num (JNum (Fin (10 ^ 22))) = Fin (10 ^ 22)"
proof -
  have 1: "num (JStr ''  '') = Fin 0"
  proof -
    have "cell_text (JStr ''  '') = []" by code_simp
    with num_total [of _ _ _ "''  ''"] show ?thesis by blast
  qed
  have 2: "num (JStr '' 1,234.50 '') = Fin (2469 / 2)"
  proof -
    have "cell_text (JStr '' 1,234.50 '') = ''1234.50''" "is_decimal_text ''1234.50''"
      "decimal_value ''1234.50'' = 2469 / 2"
      by code_simp+
    with num_total [of _ _ _ "'' 1,234.50 ''"] show ?thesis by simp
  qed
  have 3: "num (JStr ''-1.5e-3'') = Fin (- 3 / 2000)"
  proof -
    let ?l = "Decimal ''-'' ''1'' True ''5'' (Some (CHR ''e'', ''-'', ''3''))"
    have "literal_ok ?l" "cell_text (JStr ''-1.5e-3'') = literal_text ?l"
      "literal_value ?l = Fin (- 3 / 2000)"
      by code_simp+
    with num_total [of _ _ _ "''-1.5e-3''" ?l] show ?thesis by simp
  qed
  have 4: "num (JStr ''0x10'') = Fin 16"
  proof -
    let ?l = "Radix (CHR ''x'') ''10''"
    have "literal_ok ?l" "cell_text (JStr ''0x10'') = literal_text ?l"
      "literal_value ?l = Fin 16"
      by code_simp+
    with num_total [of _ _ _ "''0x10''" ?l] show ?thesis by simp
  qed
  have 5: "num (JStr ''0o17'') = Fin 15"
  proof -
    let ?l = "Radix (CHR ''o'') ''17''"
    have "literal_ok ?l" "cell_text (JStr ''0o17'') = literal_text ?l"
      "literal_value ?l = Fin 15"
      by code_simp+
    with num_total [of _ _ _ "''0o17''" ?l] show ?thesis by simp
  qed
  have 6: "num (JStr ''0b101'') = Fin 5"
  proof -
    let ?l = "Radix (CHR ''b'') ''101''"
    have "literal_ok ?l" "cell_text (JStr ''0b101'') = literal_text ?l"
      "literal_value ?l = Fin 5"
      by code_simp+
    with num_total [of _ _ _ "''0b101''" ?l] show ?thesis by simp
  qed
  have 7: "num (JStr ''-Infinity'') = NInf"
  proof -
    let ?l = "Infinite ''-''"
    have "literal_ok ?l" "cell_text (JStr ''-Infinity'') = literal_text ?l"
      "literal_value ?l = NInf"
      by code_simp+
    with num_total [of _ _ _ "''-Infinity''" ?l] show ?thesis by simp
  qed
  have 8: "num (JStr ''12 apples'') = Fin 0"
  proof -
    have c: "cell_text (JStr ''12 apples'') = ''12 apples''"
      and n: "Number_of_text ''12 apples'' = NaN"
      by code_simp+
    have "literal_text k \<noteq> ''12 apples''" if "literal_ok k" for k
      using literal_sound [OF that] literal_value_not_NaN [of k] n by auto
    with c num_total [of _ _ _ "''12 apples''"] show ?thesis by simp
  qed
  have 9: "num (JNum (Fin (10 ^ 22))) = Fin (10 ^ 22)"
    using num_total [of _ _ "Fin (10 ^ 22)"] by simp
  have 10: "num (JStr ''1,2,3 '') = Fin 123"
  proof -
    let ?l = "Decimal [] ''123'' False [] None"
    have "list_all is_ws []" "list_all is_ws '' ''"
      "\<not> is_ws (hd ''123'') \<and> \<not> is_ws (last ''123'')"
      "strip_commas ''1,2,3 '' = [] @ ''123'' @ '' ''"
      by code_simp+
    with num_total [of _ _ _ "''1,2,3 ''" _ "[]" "'' ''" "''123''"]
    have c: "cell_text (JStr ''1,2,3 '') = ''123''" by blast
    have "literal_ok ?l" "literal_text ?l = ''123''" "literal_value ?l = Fin 123"
      by code_simp+
    with c num_total [of _ _ _ "''1,2,3 ''" ?l] show ?thesis by simp
  qed
  from 1 2 3 4 5 6 7 8 10 9 show ?thesis by blast
qed

text \<open>
  The claim as it is written fails on \<^verbatim>\<open>"0x10"\<close>, which is not a decimal text and is
  read as 16.
\<close>

theorem num_hex_text:
  "num (JStr ''0x10'') = Fin 16 \<and> \<not> is_decimal_text (cell_text (JStr ''0x10''))"
  by code_simp

subsection \<open>C9: the shared header\<close>

lemma segment_step_header:
  "globalHeader (segment_step st r) =
     (if globalHeader st = None \<and> header_row r then Some r else globalHeader st)"
  by (auto simp: segment_step_def header_row_def is_date_row_def is_total_row_def
        matches_word_def Let_def split: option.splits)

lemma foldl_segment_header:
  "globalHeader (foldl segment_step st rows) =
     (case globalHeader st of Some h \<Rightarrow> Some h | None \<Rightarrow> find header_row rows)"
proof (induction rows arbitrary: st)
  case Nil
  show ?case by (simp split: option.splits)
next
  case (Cons r rows)
  show ?case by (simp add: Cons.IH segment_step_header split: option.splits)
qed


lemma segment_step_no_rows:
  assumes "no_rows st" "\<not> header_row r"
  shows "no_rows (segment_step st r)"
  using assms
  by (auto simp: no_rows_def segment_step_def header_row_def is_date_row_def is_total_row_def
        matches_word_def Let_def split: option.splits)

lemma foldl_segment_no_rows:
  assumes "no_rows st" "\<forall>r \<in> set rows. \<not> header_row r"
  shows "no_rows (foldl segment_step st rows)"
  using assms
proof (induction rows arbitrary: st)
  case Nil
  then show ?case by simp
next
  case (Cons r rows)
  then show ?case by (simp add: segment_step_no_rows)
qed

text \<open>
  C9, as the code has it. The shared header is the first row whose first cell is
  \<^verbatim>\<open>Date\<close>, in any case of letters, and whose second cell does not contain
  \<^verbatim>\<open>total\<close>: a row with such a second cell is skipped before the header test. Once
  captured the header is never replaced. When no row of the sheet is such a row, and so
  when no row has \<^verbatim>\<open>Date\<close> as its first cell, the header stays \<^verbatim>\<open>null\<close> and the row
  list of every block is empty; the scan returns its state all the same.
\<close>

theorem shared_header_once:
  "globalHeader (segment rows) = find header_row rows \<and>
   (globalHeader st = Some h \<longrightarrow> globalHeader (foldl segment_step st rows) = Some h) \<and>
   ((\<forall>r \<in> set rows. \<not> header_row r) \<longrightarrow>
      globalHeader (segment rows) = None \<and>
      (\<forall>b \<in> set (rowsBySalesperson (segment rows)). snd b = [])) \<and>
   ((\<forall>r \<in> set rows. \<not> is_date_row r) \<longrightarrow> (\<forall>r \<in> set rows. \<not> header_row r))"
proof (intro conjI impI)
  show "globalHeader (segment rows) = find header_row rows"
    by (simp add: segment_def foldl_segment_header)
  show "globalHeader (foldl segment_step st rows) = Some h" if "globalHeader st = Some h"
    using that by (simp add: foldl_segment_header)
  have z: "no_rows \<lparr>currentSalesperson = None, rowsBySalesperson = [], globalHeader = None\<rparr>"
    by (simp add: no_rows_def)
  {
    assume "\<forall>r \<in> set rows. \<not> header_row r"
    with z have "no_rows (segment rows)" unfolding segment_def by (rule foldl_segment_no_rows)
    then show "globalHeader (segment rows) = None"
      and "\<forall>b \<in> set (rowsBySalesperson (segment rows)). snd b = []"
      by (simp_all add: no_rows_def)
  }
  show "\<forall>r \<in> set rows. \<not> header_row r" if "\<forall>r \<in> set rows. \<not> is_date_row r"
    using that by (simp add: header_row_def)
qed


theorem shared_header_once_witness:
  "globalHeader (segment [[JStr ''Salesperson: A''], [JStr ''01-11-2025'', JStr ''INV1'']]) = None \<and>
   rowsBySalesperson (segment [[JStr ''Salesperson: A''], [JStr ''01-11-2025'', JStr ''INV1'']])
     = [(''A'', [])] \<and>
   globalHeader (foldl segment_step
       \<lparr>currentSalesperson = None, rowsBySalesperson = [],
        globalHeader = Some [JStr ''Date'', JStr ''Invoice No.'']\<rparr>
       [[JStr ''DATE'', JStr ''Inv No'']]) = Some [JStr ''Date'', JStr ''Invoice No.'']"
proof -
  let ?rows = "[[JStr ''Salesperson: A''], [JStr ''01-11-2025'', JStr ''INV1'']]"
  let ?st = "\<lparr>currentSalesperson = None, rowsBySalesperson = [],
        globalHeader = Some [JStr ''Date'', JStr ''Invoice No.'']\<rparr>"
  have d: "\<forall>r \<in> set ?rows. \<not> is_date_row r" by code_simp
  have k: "map fst (rowsBySalesperson (segment ?rows)) = [''A'']" by code_simp
  note t = shared_header_once [of ?rows ?st "[JStr ''Date'', JStr ''Invoice No.'']"]
  from t d have h: "\<forall>r \<in> set ?rows. \<not> header_row r" by blast
  with t have 1: "globalHeader (segment ?rows) = None"
    and e: "\<forall>b \<in> set (rowsBySalesperson (segment ?rows)). snd b = []" by blast+
  from k e have 2: "rowsBySalesperson (segment ?rows) = [(''A'', [])]"
    by (cases "rowsBySalesperson (segment ?rows)") auto
  from shared_header_once [of "[[JStr ''DATE'', JStr ''Inv No'']]" ?st "[JStr ''Date'', JStr ''Invoice No.'']"]
  have 3: "globalHeader (foldl segment_step ?st [[JStr ''DATE'', JStr ''Inv No'']])
            = Some [JStr ''Date'', JStr ''Invoice No.'']" by simp
  from 1 2 3 show ?thesis by blast
qed

text \<open>
  The claim as it is written fails on a sheet whose \<^verbatim>\<open>Date\<close> row has
  \<^verbatim>\<open>Total Qty\<close> as its second cell: that row is the first with \<^verbatim>\<open>Date\<close> in its
  first cell, and it is not captured.
\<close>

theorem date_row_with_total_not_header:
  "is_date_row [JStr ''Date'', JStr ''Total Qty''] \<and>
   find is_date_row [[JStr ''Date'', JStr ''Total Qty''], [JStr ''Salesperson: A''],
                     [JStr ''01-11-2025'', JNum (Fin 5)]]
     = Some [JStr ''Date'', JStr ''Total Qty''] \<and>
   globalHeader (segment [[JStr ''Date'', JStr ''Total Qty''], [JStr ''Salesperson: A''],
                          [JStr ''01-11-2025'', JNum (Fin 5)]]) = None"
  by code_simp

end
